(* ===== verification/Prelude.thy ===== *)
theory Prelude
  imports Main "HOL-Library.Word"
begin

unbundle bit_operations_syntax

text \<open>
  Shared vocabulary of the development.  Bytes of the wire are \<open>8 word\<close> values (the
  C++ \<open>char\<close> of \<^verbatim>\<open>std::string\<close> and \<^verbatim>\<open>std::vector<char>\<close>), a wire string is a
  list of them.  The C++ library calls the sources rely on and that can fail
  (\<^verbatim>\<open>std::string::substr\<close>, \<^verbatim>\<open>std::bitset\<close> from a string, \<^verbatim>\<open>std::stoi\<close>) report
  their exceptions as values of \<open>cpp_error\<close>; the one reading out of bounds is
  \<open>Undefined_Behaviour\<close>.  The collections \<open>codec_simps\<close>, \<open>window_simps\<close> and
  \<open>buffer_simps\<close> gather the rules the component proofs of the codec, the sender's
  window and the receiver's reorder buffer share.
\<close>

named_theorems codec_simps "rules evaluating the text-of-bits packet codec"
named_theorems window_simps "rules about the sender's in-flight list and window"
named_theorems buffer_simps "rules about the receiver's reorder buffer"

type_synonym byte = "8 word"
type_synonym wire = "byte list"

datatype cpp_error = Out_Of_Range | Invalid_Argument | Length_Error | Undefined_Behaviour

type_synonym 'a cpp_result = "cpp_error + 'a"

text \<open>\<^verbatim>\<open>s.substr(pos, len)\<close>: throws \<^verbatim>\<open>out_of_range\<close> when \<open>pos\<close> is past the end.\<close>

definition cpp_substr :: "wire \<Rightarrow> nat \<Rightarrow> nat \<Rightarrow> wire cpp_result" where
  "cpp_substr s pos len = (if length s < pos then Inl Out_Of_Range else Inr (take len (drop pos s)))"

text \<open>Sequencing of fallible steps: the first exception ends the computation, as an uncaught
  C++ exception ends the program.\<close>

definition res_bind :: "'a cpp_result \<Rightarrow> ('a \<Rightarrow> 'b cpp_result) \<Rightarrow> 'b cpp_result" where
  "res_bind x f = (case x of Inl e \<Rightarrow> Inl e | Inr v \<Rightarrow> f v)"

lemma res_bind_simps [simp]:
  "res_bind (Inl e) f = Inl e"
  "res_bind (Inr v) f = f v"
  by (simp_all add: res_bind_def)

lemma res_bind_eq_Inr:
  "(res_bind x f = Inr y) = (\<exists>v. x = Inr v \<and> f v = Inr y)"
  by (cases x) simp_all

subsection \<open>Lists\<close>

lemma cpp_substr_ok [codec_simps]:
  "pos \<le> length s \<Longrightarrow> cpp_substr s pos len = Inr (take len (drop pos s))"
  by (simp add: cpp_substr_def)

lemma map_eq_upt_Cons [window_simps]:
  "map f (x # xs) = [a..<b] \<Longrightarrow> f x = a \<and> map f xs = [Suc a..<b]"
  by (drule sym) (auto simp add: upt_eq_Cons_conv)

text \<open>Sorting by a key, as the receiver sorts its buffer by sequence number.\<close>

lemma sort_key_snoc_least [buffer_simps]:
  "sorted_wrt (<) (map f xs) \<Longrightarrow> \<forall>y\<in>set xs. f x < f y \<Longrightarrow> sort_key f (xs @ [x]) = x # xs"
proof (induction xs)
  case (Cons y ys)
  have "insort_key f y ys = y # ys" using Cons.prems(1) by (cases ys) auto
  then show ?case using Cons by auto
qed simp

lemma strict_sorted_sort_key [buffer_simps]:
  "distinct (map f xs) \<Longrightarrow> sorted_wrt (<) (map f (sort_key f xs))"
  by (simp add: strict_sorted_iff distinct_map)

subsection \<open>Integers\<close>

text \<open>One wrap of a value between one and two moduli, as the narrowing conversions do.\<close>

lemma mod_once: "(b::int) \<le> y \<Longrightarrow> y < 2 * b \<Longrightarrow> y mod b = y - b"
proof -
  assume a: "b \<le> y" "y < 2 * b"
  have "y mod b = ((y - b) + 1 * b) mod b" by simp
  also have "\<dots> = (y - b) mod b" by (rule mod_mult_self1)
  also have "\<dots> = y - b" by (rule mod_pos_pos_trivial) (use a in simp_all)
  finally show ?thesis .
qed

subsection \<open>Words\<close>

lemma word_and_not_eq_0_iff:
  "((w::'a::len word) AND NOT m = 0) = (w AND m = w)"
  by (auto simp: bit_eq_iff bit_and_iff bit_not_iff)

lemma word_and_mask_self_iff_unat:
  "((w::'a::len word) AND mask n = w) = (unat w < 2 ^ n)"
  by (simp only: mask_eq_iff unat_eq_nat_uint) (metis nat_less_numeral_power_cancel_iff)

end
