(* ===== verification/Packet.thy ===== *)
theory Packet
  imports Prelude
begin

unbundle bit_operations_syntax

text \<open>
  The packet codec of \<^verbatim>\<open>src/Packet.h\<close> and \<^verbatim>\<open>src/Packet.cpp\<close>: the \<^verbatim>\<open>Packet\<close>
  class as a record, its checksum (\<^verbatim>\<open>createChecksum\<close>) at the widths of the source
  (bytes widened through \<^verbatim>\<open>bitset<16>\<close> of a signed \<^verbatim>\<open>char\<close>, a 64-bit
  \<^verbatim>\<open>u_long\<close> accumulator, a 16-bit result), the text-of-bits encoder
  \<^verbatim>\<open>createPacketString\<close> and the decoder \<^verbatim>\<open>reversePacket\<close> with the exceptions of
  \<^verbatim>\<open>substr\<close> and \<^verbatim>\<open>bitset\<close> as errors.  The lemmas show that the accumulator
  loop computes a one's-complement sum, give that sum in closed form, and prove the
  header and checksum round trips.
\<close>

section \<open>Packet\<close>

text \<open>
  \<^verbatim>\<open>class Packet\<close>.  Sequence numbers are kept as \<open>nat\<close> (the field is
  \<^verbatim>\<open>unsigned int\<close>; the encoder writes it modulo \<open>2^32\<close>).  \<^verbatim>\<open>checksum\<close> and the
  sender-side \<^verbatim>\<open>seqNum\<close> are uninitialised by the empty constructor; the model
  starts them at 0.  The time point is a number of milliseconds.
\<close>

record packet =
  seqNum :: nat
  seqNumRange :: int
  ack :: int
  checksum :: int
  data :: wire
  timeoutTimePoint :: nat

definition ACK_OK :: int where
  "ACK_OK = 1"

definition ACK_FAIL :: int where
  "ACK_FAIL = 2"

definition new_packet :: packet where
  "new_packet = \<lparr>seqNum = 0, seqNumRange = 0, ack = 0, checksum = 0, data = [],
                  timeoutTimePoint = 0\<rparr>"

definition showSeqNum :: "packet \<Rightarrow> int" where
  "showSeqNum p =
     (if 0 < seqNumRange p then int (seqNum p) mod seqNumRange p else int (seqNum p))"

subsection \<open>Checksum\<close>

text \<open>
  \<^verbatim>\<open>bitset<16>(this->data[i])\<close>: the \<^verbatim>\<open>char\<close> (signed on the x86-64 target) is
  converted to \<^verbatim>\<open>unsigned long long\<close>, so a byte of 128 or more is sign-extended.
\<close>

definition widen :: "byte \<Rightarrow> 16 word" where
  "widen b = scast b"

text \<open>One iteration of the \<^verbatim>\<open>while (dataCSArrayLen--)\<close> loop on the \<^verbatim>\<open>u_long sum\<close>.\<close>

definition cs_step :: "64 word \<Rightarrow> 16 word \<Rightarrow> 64 word" where
  "cs_step acc w =
     (let s = acc + ucast w in
      if s AND 0xFFFF0000 \<noteq> 0 then (s AND 0xFFFF) + 1 else s)"

definition createChecksum :: "wire \<Rightarrow> 16 word" where
  "createChecksum d = ucast (NOT (foldl cs_step 0 (map widen d) AND 0xFFFF))"

text \<open>\<^verbatim>\<open>isValidChecksum\<close>: the stored \<^verbatim>\<open>int\<close> against the recomputed \<^verbatim>\<open>u_short\<close>.\<close>

definition isValidChecksum :: "packet \<Rightarrow> bool" where
  "isValidChecksum p = (checksum p = int (unat (createChecksum (data p))))"

subsection \<open>Text-of-bits encoding\<close>

text \<open>\<^verbatim>\<open>bitset<k>(n).to_string()\<close>: \<open>k\<close> characters \<^verbatim>\<open>'0'\<close>/\<^verbatim>\<open>'1'\<close>, most significant first.\<close>

fun bitstr :: "nat \<Rightarrow> nat \<Rightarrow> wire" where
  "bitstr 0 n = []"
| "bitstr (Suc k) n = bitstr k (n div 2) @ [if n mod 2 = 0 then 48 else 49]"

definition is_bin :: "wire \<Rightarrow> bool" where
  "is_bin s = list_all (\<lambda>c. c = 48 \<or> c = 49) s"

definition bin_val :: "wire \<Rightarrow> nat" where
  "bin_val s = foldl (\<lambda>acc c. 2 * acc + (if c = 49 then 1 else 0)) 0 s"

text \<open>
  \<^verbatim>\<open>bitset<k>(str).to_ulong()\<close>: the first \<open>k\<close> characters are read; any other
  character than \<^verbatim>\<open>'0'\<close> or \<^verbatim>\<open>'1'\<close> among them throws \<^verbatim>\<open>invalid_argument\<close>.
\<close>

definition bitset_to_ulong :: "nat \<Rightarrow> wire \<Rightarrow> nat cpp_result" where
  "bitset_to_ulong k s =
     (let t = take k s in if is_bin t then Inr (bin_val t) else Inl Invalid_Argument)"

text \<open>\<^verbatim>\<open>createPacketString(forceNACK)\<close>: 32 bits of sequence number, 2 of ack, 16 of
  checksum (0 when a NACK is forced), then the payload bytes verbatim.\<close>

definition createPacketString :: "bool \<Rightarrow> packet \<Rightarrow> wire" where
  "createPacketString forceNACK p =
     bitstr 32 (seqNum p) @ bitstr 2 (nat (ack p mod 4))
     @ bitstr 16 (if forceNACK then 0 else unat (createChecksum (data p)))
     @ data p"

text \<open>
  \<^verbatim>\<open>reversePacket(inputData)\<close> updates the fields of an existing packet.  The three
  \<^verbatim>\<open>substr\<close> calls and \<^verbatim>\<open>bitset\<close> conversions are made in the source's order;
  \<^verbatim>\<open>inputData.begin() + 50\<close> on a shorter string is undefined behaviour.
\<close>

definition reversePacket :: "wire \<Rightarrow> packet \<Rightarrow> packet cpp_result" where
  "reversePacket s p =
     (case bitset_to_ulong 32 (take 32 s) of Inl e \<Rightarrow> Inl e | Inr sq \<Rightarrow>
      (case cpp_substr s 32 2 of Inl e \<Rightarrow> Inl e | Inr a \<Rightarrow>
      (case bitset_to_ulong 2 a of Inl e \<Rightarrow> Inl e | Inr ak \<Rightarrow>
      (case cpp_substr s 34 16 of Inl e \<Rightarrow> Inl e | Inr c \<Rightarrow>
      (case bitset_to_ulong 16 c of Inl e \<Rightarrow> Inl e | Inr cs \<Rightarrow>
      (if length s < 50 then Inl Undefined_Behaviour
       else Inr (p\<lparr>seqNum := sq, ack := int ak, checksum := int cs, data := drop 50 s\<rparr>)))))))"

subsection \<open>Timeouts\<close>

text \<open>
  \<^verbatim>\<open>setTimeout\<close> and \<^verbatim>\<open>hasTimedOut\<close> read the system clock; the model passes the
  clock reading \<open>now\<close> (milliseconds) as an argument.
\<close>

definition setTimeout :: "nat \<Rightarrow> nat \<Rightarrow> packet \<Rightarrow> packet" where
  "setTimeout now timeout p = p\<lparr>timeoutTimePoint := now + timeout\<rparr>"

definition hasTimedOut :: "nat \<Rightarrow> packet \<Rightarrow> bool" where
  "hasTimedOut now p = (timeoutTimePoint p < now)"

subsection \<open>Reference: one's-complement sum\<close>

text \<open>
  The arithmetic the accumulator loop is meant to perform: end-around-carry addition
  of 16-bit values, and its closed form, the value in \<open>1..65535\<close> congruent to the
  plain sum modulo \<open>65535\<close> (0 only for a zero sum).
\<close>

definition oc_add :: "nat \<Rightarrow> nat \<Rightarrow> nat" where
  "oc_add a b = (if a + b < 65536 then a + b else a + b - 65535)"

definition oc_norm :: "nat \<Rightarrow> nat" where
  "oc_norm n = (if n = 0 then 0 else (n - 1) mod 65535 + 1)"

definition ones_sum :: "wire \<Rightarrow> nat" where
  "ones_sum d = oc_norm (sum_list (map (unat \<circ> widen) d))"

section \<open>Lemmas\<close>

subsection \<open>Bits\<close>

lemma length_bitstr [simp, codec_simps]: "length (bitstr k n) = k"
  by (induction k arbitrary: n) auto

lemma is_bin_append [codec_simps]: "is_bin (xs @ ys) = (is_bin xs \<and> is_bin ys)"
  by (simp add: is_bin_def)

text \<open>The header's three fields, as the decoder's \<^verbatim>\<open>substr\<close> calls cut them.\<close>

lemma take_header_fields: "take 50 s = take 32 s @ take 2 (drop 32 s) @ take 16 (drop 34 s)"
proof -
  have "take 50 s = take 32 s @ take 18 (drop 32 s)" using take_add[of 32 18 s] by simp
  also have "take 18 (drop 32 s) = take 2 (drop 32 s) @ take 16 (drop 34 s)"
    using take_add[of 2 16 "drop 32 s"] by simp
  finally show ?thesis .
qed

lemma is_bin_bitstr [simp, codec_simps]: "is_bin (bitstr k n)"
  by (induction k arbitrary: n) (auto simp: is_bin_def)

lemma bin_val_snoc: "bin_val (xs @ [c]) = 2 * bin_val xs + (if c = 49 then 1 else 0)"
  by (simp add: bin_val_def)

lemma bin_val_bitstr [simp, codec_simps]: "bin_val (bitstr k n) = n mod 2 ^ k"
proof (induction k arbitrary: n)
  case 0
  then show ?case by (simp add: bin_val_def)
next
  case (Suc k)
  have "bin_val (bitstr (Suc k) n) = 2 * ((n div 2) mod 2 ^ k) + n mod 2"
    by (simp add: bin_val_snoc Suc.IH)
  also have "\<dots> = n mod 2 ^ Suc k"
    by (simp add: mod_mult2_eq mult.commute)
  finally show ?case .
qed

lemma bitset_to_ulong_bitstr [simp, codec_simps]:
  "k \<le> j \<Longrightarrow> bitset_to_ulong j (bitstr k n) = Inr (n mod 2 ^ k)"
  by (simp add: bitset_to_ulong_def)

subsection \<open>Words of the checksum loop\<close>

lemma sint_byte: "sint (b::byte) = (uint b + 128) mod 256 - 128"
proof -
  have "sint (word_of_int (uint b) :: byte)
        = (uint b + 2 ^ (LENGTH(8) - 1)) mod 2 ^ LENGTH(8) - 2 ^ (LENGTH(8) - 1)"
    by (rule int_word_sint)
  then show ?thesis by simp
qed

lemma uint_widen: "uint (widen b) = sint b mod 65536"
  by (simp only: widen_def scast_eq uint_word_of_int_eq take_bit_eq_mod) simp

lemma sext_byte_arith:
  assumes "0 \<le> (x::int)" and "x < 256"
  shows "((x + 128) mod 256 - 128) mod 65536 = (if x < 128 then x else x + 65280)"
proof (cases "x < 128")
  case True
  have "(x + 128) mod 256 = x + 128" using assms True by (intro mod_pos_pos_trivial) arith+
  moreover have "x mod 65536 = x" using assms by (intro mod_pos_pos_trivial) arith+
  ultimately show ?thesis using True by simp
next
  case False
  have "(x + 128) mod 256 = ((x - 128) + 1 * 256) mod 256" by (simp add: add.commute)
  also have "\<dots> = x - 128" using assms False by (simp only: mod_mult_self1) (intro mod_pos_pos_trivial; arith)
  finally have "((x + 128) mod 256 - 128) mod 65536 = ((x + 65280) + (-1) * 65536) mod 65536" by simp
  also have "\<dots> = x + 65280" using assms by (simp only: mod_mult_self1) (intro mod_pos_pos_trivial; arith)
  finally show ?thesis using False by simp
qed

lemma int_sext_eq_nat:
  "int a = (if int c < 128 then int c else int c + 65280) \<Longrightarrow>
   a = (if c < 128 then c else c + 65280)"
  by (auto split: if_splits)

lemma unat_widen [codec_simps]:
  "unat (widen b) = (if unat b < 128 then unat b else unat b + 65280)"
proof -
  have u: "0 \<le> uint b" "uint b < 256" using uint_bounded[of b] by simp_all
  have "uint (widen b) = (if uint b < 128 then uint b else uint b + 65280)"
    unfolding uint_widen sint_byte by (rule sext_byte_arith[OF u])
  then have "int (unat (widen b))
             = (if int (unat b) < 128 then int (unat b) else int (unat b) + 65280)"
    by (simp only: of_nat_unat)
  then show ?thesis by (rule int_sext_eq_nat)
qed

lemma uint_not16: "uint (NOT (w::16 word)) = 65535 - uint w"
proof -
  have b: "0 \<le> uint w" "uint w < 65536" using uint_bounded[of w] by simp_all
  have "uint (NOT w) = (- uint w - 1) mod 65536"
    by (simp add: unsigned_not_eq take_bit_eq_mod not_int_def)
  also have "- uint w - 1 = (65535 - uint w) + (-1) * 65536" by simp
  also have "((65535 - uint w) + (-1) * 65536) mod 65536 = (65535 - uint w) mod 65536"
    by (rule mod_mult_self1)
  also have "\<dots> = 65535 - uint w" using b by (intro mod_pos_pos_trivial) arith+
  finally show ?thesis .
qed

lemma unat_not16: "unat (NOT (w::16 word)) = 65535 - unat w"
proof -
  have "int (unat (NOT w)) = 65535 - int (unat w)"
    using uint_not16[of w] by (simp only: of_nat_unat)
  then show ?thesis by linarith
qed

lemma hi_mask: "(0xFFFF0000::64 word) = mask 32 AND NOT (mask 16)"
  by (simp add: mask_eq_exp_minus_1)

lemma and_hi_eq_0:
  "unat (s::64 word) < 2^32 \<Longrightarrow> (s AND 0xFFFF0000 = 0) = (unat s < 2^16)"
proof -
  assume a: "unat s < 2^32"
  then have "s AND mask 32 = s" by (simp add: word_and_mask_self_iff_unat)
  then have "s AND 0xFFFF0000 = s AND NOT (mask 16)"
    by (metis hi_mask and.assoc)
  then show ?thesis
    by (simp add: word_and_not_eq_0_iff word_and_mask_self_iff_unat)
qed

lemma unat_and_ffff: "unat ((s::64 word) AND 0xFFFF) = unat s mod 2^16"
proof -
  have "(0xFFFF::64 word) = mask 16" by (simp add: mask_eq_exp_minus_1)
  then show ?thesis by (metis take_bit_eq_mask unsigned_take_bit_eq take_bit_eq_mod)
qed

lemma unat_ucast_16_64: "unat (ucast (w::16 word) :: 64 word) = unat w"
proof -
  have "unat w < 2 ^ 64" using unsigned_less[of w, where ?'a = nat] by simp
  then show ?thesis by (simp add: unsigned_ucast_eq take_bit_eq_mod)
qed

lemma ucast_not_64_16: "(ucast (NOT (x::64 word)) :: 16 word) = NOT (ucast x)"
  by (rule bit_word_eqI) (auto simp: bit_simps)

lemma unat_ucast_64_16: "unat (ucast (x::64 word) :: 16 word) = unat x mod 65536"
  by (simp add: unsigned_ucast_eq take_bit_eq_mod)

subsection \<open>The loop computes the one's-complement sum\<close>

text \<open>One iteration on an accumulator below \<open>2^16\<close> is one end-around-carry addition.\<close>

lemma unat_cs_step:
  assumes "unat acc < 65536"
  shows "unat (cs_step acc w) = oc_add (unat acc) (unat w)"
proof -
  have w: "unat w < 65536" using unsigned_less[of w, where ?'a = nat] by simp
  define s where "s = acc + ucast w"
  have us: "unat s = unat acc + unat w"
    using assms w unat_add_lem[of acc "ucast w"] by (simp add: s_def unat_ucast_16_64)
  then have s32: "unat s < 2^32" using assms w by simp
  show ?thesis
  proof (cases "unat s < 65536")
    case True
    then have "s AND 0xFFFF0000 = 0" using and_hi_eq_0[OF s32] by simp
    then show ?thesis using True us by (simp add: cs_step_def oc_add_def Let_def s_def[symmetric])
  next
    case False
    then have "s AND 0xFFFF0000 \<noteq> 0" using and_hi_eq_0[OF s32] by simp
    moreover have "unat ((s AND 0xFFFF) + 1) = unat s mod 65536 + 1"
    proof -
      have "unat s mod 65536 < 18446744073709551615"
        by (rule less_le_trans[OF mod_less_divisor]) simp_all
      then show ?thesis using unat_and_ffff[of s] unat_add_lem[of "s AND 0xFFFF" 1] by simp
    qed
    ultimately show ?thesis using False us s32 assms w
      by (simp add: cs_step_def oc_add_def Let_def s_def[symmetric] le_mod_geq)
  qed
qed

lemma oc_add_bound: "a < 65536 \<Longrightarrow> b < 65536 \<Longrightarrow> oc_add a b < 65536"
  by (simp add: oc_add_def) arith

lemma unat_foldl_cs_step:
  "unat acc < 65536 \<Longrightarrow> unat (foldl cs_step acc ws) = foldl oc_add (unat acc) (map unat ws)"
proof (induction ws arbitrary: acc)
  case Nil
  then show ?case by simp
next
  case (Cons w ws)
  have "unat (cs_step acc w) = oc_add (unat acc) (unat w)"
    using Cons.prems by (rule unat_cs_step)
  moreover have "oc_add (unat acc) (unat w) < 65536"
    using Cons.prems unsigned_less[of w, where ?'a = nat] by (simp add: oc_add_bound)
  ultimately show ?case using Cons.IH[of "cs_step acc w"] by simp
qed

lemma oc_add_norm: "b < 65536 \<Longrightarrow> oc_add (oc_norm a) b = oc_norm (a + b)"
proof (cases "a = 0")
  case True
  assume "b < 65536"
  then show ?thesis using True by (simp add: oc_add_def oc_norm_def)
next
  case False
  assume b: "b < 65536"
  define r where "r = (a - 1) mod 65535"
  have r: "r < 65535" by (simp add: r_def)
  have e: "a + b - 1 = (a - 1) + b" using False by simp
  have "(a + b - 1) mod 65535 = (r + b) mod 65535"
    unfolding e r_def by (simp add: mod_add_left_eq)
  moreover have "(r + b) mod 65535 = (if r + b < 65535 then r + b else r + b - 65535)"
    using r b by (simp add: le_mod_geq)
  ultimately have n2: "oc_norm (a + b) = (if r + b < 65535 then r + b else r + b - 65535) + 1"
    using False by (simp add: oc_norm_def)
  have n1: "oc_norm a = r + 1" using False by (simp add: oc_norm_def r_def)
  show ?thesis unfolding n1 n2 oc_add_def using r b by auto
qed

lemma foldl_oc_add_norm:
  "\<forall>b\<in>set bs. b < 65536 \<Longrightarrow> foldl oc_add (oc_norm a) bs = oc_norm (a + sum_list bs)"
proof (induction bs arbitrary: a)
  case Nil
  then show ?case by simp
next
  case (Cons b bs)
  then show ?case by (simp add: oc_add_norm add.assoc)
qed

lemma ones_sum_bound: "ones_sum d < 65536"
  by (simp add: ones_sum_def oc_norm_def)

lemma createChecksum_ones_sum [codec_simps]: "unat (createChecksum d) = 65535 - ones_sum d"
proof -
  define x where "x = foldl cs_step 0 (map widen d)"
  have "unat x = foldl oc_add 0 (map unat (map widen d))"
    unfolding x_def using unat_foldl_cs_step[of 0 "map widen d"] by simp
  also have "\<dots> = foldl oc_add (oc_norm 0) (map (unat \<circ> widen) d)"
    by (simp add: oc_norm_def)
  also have "\<dots> = ones_sum d"
  proof -
    have "\<forall>b\<in>set (map (unat \<circ> widen) d). b < 65536"
      using unsigned_less[where ?'a = nat and 'b = 16] by auto
    then show ?thesis by (simp add: foldl_oc_add_norm ones_sum_def)
  qed
  finally have ux: "unat x = ones_sum d" .
  then have "x AND mask 16 = x" using ones_sum_bound[of d] by (simp add: word_and_mask_self_iff_unat)
  moreover have "mask 16 = (0xFFFF::64 word)" by (simp add: mask_eq_exp_minus_1)
  ultimately have m: "x AND 0xFFFF = x" by (simp only:)
  have "createChecksum d = ucast (NOT x)"
    unfolding createChecksum_def x_def[symmetric] m ..
  then have "unat (createChecksum d) = 65535 - unat (ucast x :: 16 word)"
    by (simp only: ucast_not_64_16 unat_not16)
  also have "unat (ucast x :: 16 word) = ones_sum d"
    using ux ones_sum_bound[of d] by (simp only: unat_ucast_64_16 mod_less)
  finally show ?thesis .
qed

lemma reversePacket_createPacketString:
  "reversePacket (createPacketString forceNACK p) q =
     Inr (q\<lparr>seqNum := seqNum p mod 2 ^ 32, ack := ack p mod 4,
            checksum := (if forceNACK then 0 else int (unat (createChecksum (data p)))),
            data := data p\<rparr>)"
proof -
  let ?c = "if forceNACK then 0 else unat (createChecksum (data p))"
  have c: "?c < 2 ^ 16" using unsigned_less[of "createChecksum (data p)", where ?'a = nat] by simp
  have a: "int (nat (ack p mod 4)) = ack p mod 4" by simp
  show ?thesis
    using c a by (simp add: reversePacket_def createPacketString_def cpp_substr_def)
qed

lemma createChecksum_eq_iff: "createChecksum d = createChecksum d' \<longleftrightarrow> ones_sum d = ones_sum d'"
proof -
  have "createChecksum d = createChecksum d' \<longleftrightarrow> unat (createChecksum d) = unat (createChecksum d')"
    by (simp add: unsigned_word_eqI word_unat_eq_iff)
  then show ?thesis using ones_sum_bound[of d] ones_sum_bound[of d'] by (simp add: createChecksum_ones_sum) arith
qed

lemma oc_norm_0_iff: "oc_norm n = 0 \<longleftrightarrow> n = 0"
  by (simp add: oc_norm_def)

lemma oc_norm_pos: "n \<noteq> 0 \<Longrightarrow> oc_norm n = (n - 1) mod 65535 + 1"
  by (simp add: oc_norm_def)

lemma dvd_65535_small: "65535 dvd (n::nat) \<Longrightarrow> n < 65536 \<Longrightarrow> n = 0 \<or> n = 65535"
proof -
  assume "65535 dvd n" and n: "n < 65536"
  then obtain k where k: "n = 65535 * k" by (elim dvdE)
  with n have "k < 2" by simp
  then have "k = 0 \<or> k = 1" by arith
  with k show ?thesis by auto
qed

lemma oc_norm_add_eq_cases:
  assumes eq: "oc_norm (S + v) = oc_norm (S + v')" and v: "v < 65536" "v' < 65536"
  shows "v = v' \<or> (v = 0 \<and> v' = 65535) \<or> (v = 65535 \<and> v' = 0)"
proof (cases "S + v = 0")
  case True
  then have "S + v' = 0" using eq oc_norm_0_iff by metis
  with True show ?thesis by simp
next
  case False
  then have F': "S + v' \<noteq> 0" using eq oc_norm_0_iff by metis
  from eq have m: "(S + v - 1) mod 65535 = (S + v' - 1) mod 65535"
    by (simp only: oc_norm_pos[OF False] oc_norm_pos[OF F'])
  show ?thesis
  proof (cases "v \<le> v'")
    case True
    then have "65535 dvd (S + v' - 1) - (S + v - 1)"
      using m False by (subst mod_eq_dvd_iff_nat[symmetric]) arith+
    moreover have "(S + v' - 1) - (S + v - 1) = v' - v" using False True by arith
    ultimately have "v' - v = 0 \<or> v' - v = 65535" using v by (intro dvd_65535_small) auto
    then show ?thesis using True v by arith
  next
    case False
    then have "65535 dvd (S + v - 1) - (S + v' - 1)"
      using m F' by (subst mod_eq_dvd_iff_nat[symmetric]) arith+
    moreover have "(S + v - 1) - (S + v' - 1) = v - v'" using F' False by arith
    ultimately have "v - v' = 0 \<or> v - v' = 65535" using v by (intro dvd_65535_small) auto
    then show ?thesis using False v by arith
  qed
qed

lemma oc_norm_add_65535: "S \<noteq> 0 \<Longrightarrow> oc_norm (S + 65535) = oc_norm S"
proof -
  assume S: "S \<noteq> 0"
  have "S + 65535 - 1 = (S - 1) + 1 * 65535" using S by arith
  then have "(S + 65535 - 1) mod 65535 = (S - 1) mod 65535" by (simp only: mod_mult_self1)
  moreover have S': "S + 65535 \<noteq> 0" by simp
  ultimately show ?thesis by (simp only: oc_norm_pos[OF S] oc_norm_pos[OF S'])
qed

lemma unat_widen_inj: "unat (widen b) = unat (widen b') \<Longrightarrow> b = b'"
proof -
  assume e: "unat (widen b) = unat (widen b')"
  have "unat b < 256" "unat b' < 256"
    using unsigned_less[of b, where ?'a = nat] unsigned_less[of b', where ?'a = nat] by simp_all
  with e have "unat b = unat b'" by (simp add: unat_widen split: if_splits)
  then show ?thesis by (simp add: word_unat_eq_iff)
qed

lemma unat_widen_0: "unat (widen b) = 0 \<Longrightarrow> b = 0"
  by (simp add: unat_widen unat_eq_zero split: if_splits)

lemma unat_widen_65535: "unat (widen b) = 65535 \<Longrightarrow> b = 0xFF"
proof -
  assume e: "unat (widen b) = 65535"
  have "unat b < 256" using unsigned_less[of b, where ?'a = nat] by simp
  with e have "unat b = unat (0xFF :: byte)" by (simp add: unat_widen split: if_splits)
  then show ?thesis by (simp only: word_unat_eq_iff)
qed

lemma ones_sum_split:
  "ones_sum (xs @ b # ys) = oc_norm (sum_list (map (unat \<circ> widen) (xs @ ys)) + unat (widen b))"
  by (simp add: ones_sum_def algebra_simps)


subsection \<open>Round trips and the checksum's contract\<close>

text \<open>C8: The checksum loop of createChecksum computes the one's complement of the
  one's-complement (end-around-carry) sum of the sign-extended payload bytes, in closed
  form: 0xFFFF minus the value in 1..0xFFFF congruent to the plain sum modulo 0xFFFF.\<close>

theorem createChecksum_closed_form:
  "unat (createChecksum d) = 65535 - oc_norm (sum_list (map (unat \<circ> widen) d))"
  using createChecksum_ones_sum[of d] by (simp add: ones_sum_def)

text \<open>C10: Header round trip: for a sequence number and acknowledgement code within their
  field widths, decoding the encoding reproduces them, the checksum field and the payload.\<close>

theorem header_roundtrip:
  assumes "seqNum p < 2 ^ 32" and "0 \<le> ack p" and "ack p < 4"
  shows "reversePacket (createPacketString f p) q =
           Inr (q\<lparr>seqNum := seqNum p, ack := ack p,
                  checksum := (if f then 0 else int (unat (createChecksum (data p)))),
                  data := data p\<rparr>)"
  using assms by (simp add: reversePacket_createPacketString)

lemma header_roundtrip_witness:
  "reversePacket (createPacketString False (new_packet\<lparr>seqNum := 7, ack := 1, data := [65]\<rparr>)) new_packet =
     Inr (new_packet\<lparr>seqNum := 7, ack := 1, checksum := int (unat (createChecksum [65])), data := [65]\<rparr>)"
  using header_roundtrip[of "new_packet\<lparr>seqNum := 7, ack := 1, data := [65]\<rparr>" False new_packet]
  by (simp add: new_packet_def)

text \<open>C18: The checksum detects every change of a single payload byte, except a change
  between 0x00 and 0xFF (whose sign-extended values differ by exactly 0xFFFF).\<close>

theorem createChecksum_detects_byte_change:
  assumes "b \<noteq> b'" and "\<not> (b = 0 \<and> b' = 0xFF)" and "\<not> (b = 0xFF \<and> b' = 0)"
  shows "createChecksum (xs @ b # ys) \<noteq> createChecksum (xs @ b' # ys)"
proof
  assume "createChecksum (xs @ b # ys) = createChecksum (xs @ b' # ys)"
  then have "oc_norm (sum_list (map (unat \<circ> widen) (xs @ ys)) + unat (widen b))
           = oc_norm (sum_list (map (unat \<circ> widen) (xs @ ys)) + unat (widen b'))"
    by (simp only: createChecksum_eq_iff ones_sum_split)
  moreover have "unat (widen b) < 65536" "unat (widen b') < 65536"
    using unsigned_less[of "widen b", where ?'a = nat] unsigned_less[of "widen b'", where ?'a = nat]
    by simp_all
  ultimately have "unat (widen b) = unat (widen b') \<or>
      (unat (widen b) = 0 \<and> unat (widen b') = 65535) \<or> (unat (widen b) = 65535 \<and> unat (widen b') = 0)"
    by (rule oc_norm_add_eq_cases)
  then show False
    using assms unat_widen_inj unat_widen_0 unat_widen_65535 by blast
qed

lemma createChecksum_detects_byte_change_witness:
  "(1::byte) \<noteq> 2 \<and> \<not> ((1::byte) = 0 \<and> (2::byte) = 0xFF) \<and> \<not> ((1::byte) = 0xFF \<and> (2::byte) = 0) \<and>
   createChecksum ([] @ 1 # []) \<noteq> createChecksum ([] @ 2 # [])"
  using createChecksum_detects_byte_change[of "1" "2" "[]" "[]"] by simp

text \<open>C19: Replacing a 0x00 payload byte by 0xFF leaves the checksum unchanged whenever
  the rest of the payload has a nonzero widened sum, so such a corruption is accepted.\<close>

theorem createChecksum_blind_00_FF:
  assumes "sum_list (map (unat \<circ> widen) (xs @ ys)) \<noteq> 0"
  shows "createChecksum (xs @ 0 # ys) = createChecksum (xs @ 0xFF # ys)"
proof -
  let ?S = "sum_list (map (unat \<circ> widen) (xs @ ys))"
  have "unat (widen 0) = 0" "unat (widen 0xFF) = 65535" by (simp_all add: unat_widen)
  moreover have "oc_norm ?S = oc_norm (?S + 65535)"
    using assms by (rule oc_norm_add_65535[symmetric])
  ultimately show ?thesis by (simp only: createChecksum_eq_iff ones_sum_split) simp
qed

lemma createChecksum_blind_00_FF_witness:
  "sum_list (map (unat \<circ> widen) ([1] @ [])) \<noteq> 0 \<and>
   createChecksum ([1] @ 0 # []) = createChecksum ([1] @ 0xFF # [])"
  using createChecksum_blind_00_FF[of "[1]" "[]"] by (simp add: unat_widen)

text \<open>C9: Checksum round trip: decoding the encoding of any packet (no forced NACK) yields
  a packet with the same payload whose checksum is valid.\<close>

theorem checksum_roundtrip:
  "\<exists>p'. reversePacket (createPacketString False p) q = Inr p' \<and>
        isValidChecksum p' \<and> data p' = data p"
  by (simp add: reversePacket_createPacketString isValidChecksum_def)

text \<open>C25: A packet encoded with a forced NACK decodes to a packet whose checksum is valid
  exactly when the payload's one's-complement sum is 0xFFFF (its true checksum is 0).\<close>

theorem forced_nack_valid_iff:
  assumes "reversePacket (createPacketString True p) q = Inr p'"
  shows "isValidChecksum p' \<longleftrightarrow> ones_sum (data p) = 65535"
proof -
  have "checksum p' = 0" "data p' = data p"
    using assms by (auto simp: reversePacket_createPacketString)
  then show ?thesis using ones_sum_bound[of "data p"]
    by (simp add: isValidChecksum_def createChecksum_ones_sum)
qed

lemma forced_nack_valid_iff_witness:
  "isValidChecksum (new_packet\<lparr>seqNum := 1, data := [0xFF]\<rparr>) \<longleftrightarrow>
   ones_sum (data (new_packet\<lparr>seqNum := 1, data := [0xFF]\<rparr>)) = 65535"
proof -
  have "reversePacket (createPacketString True (new_packet\<lparr>seqNum := 1, data := [0xFF]\<rparr>)) new_packet
        = Inr (new_packet\<lparr>seqNum := 1, data := [0xFF]\<rparr>)"
    by (simp add: reversePacket_createPacketString new_packet_def)
  then show ?thesis by (rule forced_nack_valid_iff)
qed

text \<open>A forced NACK on the one-byte payload 0xFF is not a NACK: the receiver accepts it.\<close>

lemma forced_nack_undetected:
  "reversePacket (createPacketString True (new_packet\<lparr>seqNum := 1, data := [0xFF]\<rparr>)) new_packet
     = Inr (new_packet\<lparr>seqNum := 1, data := [0xFF]\<rparr>) \<and>
   isValidChecksum (new_packet\<lparr>seqNum := 1, data := [0xFF]\<rparr>)"
  by (simp add: reversePacket_createPacketString isValidChecksum_def new_packet_def
      createChecksum_ones_sum ones_sum_def unat_widen oc_norm_def)

text \<open>C26: What the decoder accepts: \<open>reversePacket\<close> returns a packet exactly when the
  input holds the 50-character header and that header is binary digits; the packet then
  carries the three header fields read as binary numbers and the rest of the input as
  its payload.  Any other input (a non-binary header character, a string too short for
  the \<^verbatim>\<open>substr\<close> calls or for \<^verbatim>\<open>begin() + 50\<close>) ends in an error.\<close>

theorem reversePacket_decodes:
  "reversePacket s p = Inr p' \<longleftrightarrow>
     50 \<le> length s \<and> is_bin (take 50 s) \<and>
     p' = p\<lparr>seqNum := bin_val (take 32 s), ack := int (bin_val (take 2 (drop 32 s))),
            checksum := int (bin_val (take 16 (drop 34 s))), data := drop 50 s\<rparr>"
proof (cases "50 \<le> length s")
  case True
  have "is_bin (take 50 s) \<longleftrightarrow>
      is_bin (take 32 s) \<and> is_bin (take 2 (drop 32 s)) \<and> is_bin (take 16 (drop 34 s))"
    using take_header_fields[of s] by (simp only: is_bin_append)
  then show ?thesis using True
    by (auto simp: reversePacket_def bitset_to_ulong_def cpp_substr_def Let_def)
next
  case False
  then show ?thesis
    by (auto simp: reversePacket_def split: sum.splits)
qed

text \<open>C11: Wire format: every frame the encoder produces is a 50-character header of binary
  digits followed by the payload bytes verbatim.\<close>

theorem createPacketString_format:
  "length (createPacketString forceNACK p) = 50 + length (data p) \<and>
   is_bin (take 50 (createPacketString forceNACK p)) \<and>
   drop 50 (createPacketString forceNACK p) = data p"
  by (simp add: createPacketString_def is_bin_append)

end
