(* ===== verification/CLib.thy ===== *)
theory CLib
  imports Prelude
begin

text \<open>
  The C and C++ library routines the sources call on text: the character classes of
  \<^verbatim>\<open><cctype>\<close>, \<^verbatim>\<open>std::stoi\<close> (through \<^verbatim>\<open>strtol\<close>), \<^verbatim>\<open>std::to_string\<close> on an
  \<^verbatim>\<open>int\<close>, the padding idiom \<^verbatim>\<open>string(n - s.length(), c).append(s)\<close> and the
  conversion \<^verbatim>\<open>string(v.data())\<close> of a \<^verbatim>\<open>vector<char>\<close>.  Each is written from the
  library's documented behaviour, exceptions included, so that the handshake of
  \<^verbatim>\<open>sendInitialFilePacket\<close> and \<^verbatim>\<open>readInitialPacket\<close> can be checked end to end.  The
  lemmas are the decimal round trip \<open>stoi (pad (to_string i)) = i\<close> for non-negative
  \<open>int\<close>s and what the same pipeline does to a negative one.
\<close>

text \<open>\<^verbatim>\<open>isspace\<close> in the C locale: space, tab, newline, vertical tab, form feed, return.\<close>

definition isspace :: "byte \<Rightarrow> bool" where
  "isspace c = (c = 32 \<or> (9 \<le> c \<and> c \<le> 13))"

definition is_digit :: "byte \<Rightarrow> bool" where
  "is_digit c = (48 \<le> c \<and> c \<le> 57)"

text \<open>The value of a run of decimal digits, read left to right, stopping at a non-digit.\<close>

fun digits_val :: "int \<Rightarrow> wire \<Rightarrow> int" where
  "digits_val acc [] = acc"
| "digits_val acc (c # cs) =
     (if is_digit c then digits_val (10 * acc + (uint c - 48)) cs else acc)"

text \<open>
  \<^verbatim>\<open>std::stoi(s)\<close>: \<^verbatim>\<open>strtol\<close> skips leading white space, reads an optional sign and
  the longest run of decimal digits; no digit throws \<^verbatim>\<open>invalid_argument\<close>, a value
  outside the 32-bit \<^verbatim>\<open>int\<close> range throws \<^verbatim>\<open>out_of_range\<close>.  Characters after the
  digits are ignored.
\<close>

definition stoi :: "wire \<Rightarrow> int cpp_result" where
  "stoi s =
     (let t = dropWhile isspace s;
          neg = (case t of [] \<Rightarrow> False | c # _ \<Rightarrow> c = 45);
          u = (case t of [] \<Rightarrow> [] | c # cs \<Rightarrow> if c = 45 \<or> c = 43 then cs else t);
          ds = takeWhile is_digit u;
          v = (if neg then - digits_val 0 ds else digits_val 0 ds)
      in if ds = [] then Inl Invalid_Argument
         else if v < - (2 ^ 31) \<or> 2 ^ 31 \<le> v then Inl Out_Of_Range else Inr v)"

text \<open>Decimal digits of a natural number, most significant first, without leading zeros.\<close>

fun dec_digits :: "nat \<Rightarrow> wire" where
  "dec_digits n = (if n < 10 then [of_nat (48 + n)] else dec_digits (n div 10) @ [of_nat (48 + n mod 10)])"

declare dec_digits.simps [simp del]

text \<open>\<^verbatim>\<open>std::to_string(int)\<close>: a minus sign for negative values, then the digits.\<close>

definition to_string :: "int \<Rightarrow> wire" where
  "to_string i = (if i < 0 then 45 # dec_digits (nat (- i)) else dec_digits (nat i))"

text \<open>
  \<^verbatim>\<open>string(n - s.length(), c).append(s)\<close>: the count is a \<^verbatim>\<open>size_t\<close>, so a string
  longer than \<open>n\<close> makes it wrap to a huge value and the constructor throws
  \<^verbatim>\<open>length_error\<close>.
\<close>

definition pad_left :: "nat \<Rightarrow> byte \<Rightarrow> wire \<Rightarrow> wire cpp_result" where
  "pad_left n c s = (if length s \<le> n then Inr (replicate (n - length s) c @ s) else Inl Length_Error)"

text \<open>\<^verbatim>\<open>string(v.data())\<close>: the bytes up to the first NUL; with no NUL in the vector the
  read runs past its end.\<close>

definition c_str :: "wire \<Rightarrow> wire cpp_result" where
  "c_str v = (if 0 \<in> set v then Inr (takeWhile (\<lambda>c. c \<noteq> 0) v) else Inl Undefined_Behaviour)"

section \<open>Lemmas\<close>

lemma unat_digit [simp]: "d < 10 \<Longrightarrow> unat (48 + word_of_nat d :: byte) = 48 + d"
  by (simp add: unat_word_ariths unat_of_nat)

lemma is_digit_unat: "is_digit c = (48 \<le> unat c \<and> unat c \<le> 57)"
  by (simp add: is_digit_def word_le_nat_alt)

lemma isspace_unat: "isspace c = (unat c = 32 \<or> (9 \<le> unat c \<and> unat c \<le> 13))"
  by (auto simp: isspace_def word_le_nat_alt word_unat_eq_iff)

lemma is_digit_digit [simp]: "d < 10 \<Longrightarrow> is_digit (48 + word_of_nat d)"
  by (simp add: is_digit_unat)

lemma uint_digit [simp]: "d < 10 \<Longrightarrow> uint (48 + word_of_nat d :: byte) = 48 + int d"
  by (simp add: uint_nat)

lemma not_isspace_digit [simp]: "d < 10 \<Longrightarrow> \<not> isspace (48 + word_of_nat d)"
  by (simp add: isspace_unat)

lemma dec_digits_digits: "c \<in> set (dec_digits n) \<Longrightarrow> is_digit c"
  by (induction n rule: dec_digits.induct) (subst (asm) dec_digits.simps, auto split: if_splits)

lemma dec_digits_ne [simp]: "dec_digits n \<noteq> []"
  by (subst dec_digits.simps) simp

lemma digits_val_append:
  "\<forall>c\<in>set xs. is_digit c \<Longrightarrow> digits_val acc (xs @ ys) = digits_val (digits_val acc xs) ys"
  by (induction acc xs rule: digits_val.induct) auto

lemma digits_val_dec_digits:
  "digits_val acc (dec_digits n) = acc * 10 ^ length (dec_digits n) + int n"
proof (induction n arbitrary: acc rule: dec_digits.induct)
  case (1 n)
  show ?case
  proof (cases "n < 10")
    case True
    then show ?thesis by (subst (1 2) dec_digits.simps) simp
  next
    case False
    have "int n = 10 * int (n div 10) + int (n mod 10)"
      using div_mult_mod_eq[of n 10] by linarith
    then show ?thesis using False 1[of acc]
      by (subst (1 2) dec_digits.simps)
         (simp add: digits_val_append dec_digits_digits algebra_simps)
  qed
qed

lemma length_dec_digits: "n < 10 ^ k \<Longrightarrow> 0 < k \<Longrightarrow> length (dec_digits n) \<le> k"
proof (induction n arbitrary: k rule: dec_digits.induct)
  case (1 n)
  show ?case
  proof (cases "n < 10")
    case True
    then show ?thesis using 1(3) by (subst dec_digits.simps) simp
  next
    case False
    then obtain k' where k: "k = Suc k'" using 1(3) by (cases k) auto
    have "n div 10 < 10 ^ k'" using 1(2) k by (simp add: less_mult_imp_div_less mult.commute)
    moreover have "0 < k'" using False 1(2) k by (cases k') auto
    ultimately show ?thesis using 1(1)[OF False] k False by (subst dec_digits.simps) simp
  qed
qed

lemma is_digit_0 [simp]: "is_digit 48"
  by (simp add: is_digit_unat)

lemma uint_48 [simp]: "uint (48 :: byte) = 48"
  using uint_digit[of 0] by simp

lemma digits_val_zeros: "digits_val acc (replicate k 48 @ xs) = digits_val (acc * 10 ^ k) xs"
proof (induction k arbitrary: acc)
  case (Suc k)
  then show ?case
    by (simp only: replicate_Suc append_Cons digits_val.simps is_digit_0 if_True uint_48)
       (simp add: ac_simps)
qed simp

lemma digit_not_space: "is_digit c \<Longrightarrow> \<not> isspace c"
  by (auto simp: is_digit_unat isspace_unat)

lemma digit_not_sign: "is_digit c \<Longrightarrow> c \<noteq> 45 \<and> c \<noteq> 43"
  by (auto simp: is_digit_unat)

lemma digits_val_nonneg: "0 \<le> acc \<Longrightarrow> 0 \<le> digits_val acc xs"
  by (induction acc xs rule: digits_val.induct) (auto simp: is_digit_def word_le_def)

lemma digits_val_non_digit:
  "\<not> is_digit c \<Longrightarrow> digits_val acc (xs @ c # ys) = digits_val acc xs"
  by (induction acc xs rule: digits_val.induct) auto

text \<open>\<^verbatim>\<open>stoi\<close> on a non-empty run of digits: its value, when it fits an \<^verbatim>\<open>int\<close>.\<close>

lemma stoi_digits:
  assumes "xs \<noteq> []" and "\<forall>c\<in>set xs. is_digit c"
  shows "stoi xs = (if digits_val 0 xs < 2 ^ 31 then Inr (digits_val 0 xs) else Inl Out_Of_Range)"
proof -
  obtain c cs where xs: "xs = c # cs" using assms(1) by (cases xs) auto
  have "dropWhile isspace xs = xs" using assms(2) xs by (simp add: digit_not_space)
  moreover have "c \<noteq> 45 \<and> c \<noteq> 43" using assms(2) xs by (simp add: digit_not_sign)
  moreover have "takeWhile is_digit xs = xs" using assms(2) by simp
  moreover have "0 \<le> digits_val 0 xs" by (rule digits_val_nonneg) simp
  ultimately show ?thesis using xs by (simp add: stoi_def Let_def)
qed

lemma dec_digits_length_int: "0 \<le> i \<Longrightarrow> i < 2 ^ 31 \<Longrightarrow> length (dec_digits (nat i)) \<le> 10"
  by (rule length_dec_digits) auto

lemma to_string_length: "- (2 ^ 31) \<le> i \<Longrightarrow> i < 2 ^ 31 \<Longrightarrow> length (to_string i) \<le> 11"
  using dec_digits_length_int[of i] dec_digits_length_int[of "- i - 1"]
    length_dec_digits[of "nat (- i)" 10]
  by (auto simp: to_string_def nat_less_iff)

\<comment> \<open>padding keeps a string of digits a string of digits\<close>
lemma pad_digits:
  assumes "\<forall>c\<in>set xs. is_digit c" and "length xs \<le> n"
  shows "pad_left n 48 xs = Inr (replicate (n - length xs) 48 @ xs) \<and>
         (\<forall>c\<in>set (replicate (n - length xs) 48 @ xs). is_digit c) \<and>
         digits_val 0 (replicate (n - length xs) 48 @ xs) = digits_val 0 xs"
  using assms by (auto simp: pad_left_def digits_val_zeros)

lemma stoi_pad_nonneg:
  assumes "0 \<le> i" and "i < 2 ^ 31"
  shows "\<exists>w. pad_left 16 48 (to_string i) = Inr w \<and> length w = 16 \<and> stoi w = Inr i"
proof -
  let ?ds = "dec_digits (nat i)"
  have d: "\<forall>c\<in>set ?ds. is_digit c" by (auto intro: dec_digits_digits)
  have l: "length ?ds \<le> 16" using dec_digits_length_int[OF assms] by simp
  let ?w = "replicate (16 - length ?ds) 48 @ ?ds"
  have "stoi ?w = Inr i"
    using pad_digits[OF d l] assms by (simp add: stoi_digits digits_val_dec_digits)
  then show ?thesis using pad_digits[OF d l] assms l by (simp add: to_string_def)
qed

lemma stoi_pad_neg:
  assumes "- (2 ^ 31) \<le> i" and "i < 0"
  shows "\<exists>w. pad_left 16 48 (to_string i) = Inr w \<and> length w = 16 \<and> stoi w = Inr 0"
proof -
  let ?s = "to_string i"
  have l: "length ?s \<le> 11" using to_string_length assms by simp
  let ?k = "16 - length ?s"
  have k: "0 < ?k" using l by simp
  have s: "?s = 45 # dec_digits (nat (- i))" using assms by (simp add: to_string_def)
  have "stoi (replicate ?k 48 @ ?s) = Inr 0"
  proof -
    obtain k' where k': "?k = Suc k'" using k by (cases ?k) auto
    have "takeWhile is_digit (replicate ?k 48 @ ?s) = replicate ?k 48 @ takeWhile is_digit ?s"
      by (rule takeWhile_append2) auto
    moreover have "\<not> is_digit 45" by (simp add: is_digit_unat)
    ultimately have "takeWhile is_digit (replicate ?k 48 @ ?s) = replicate ?k 48"
      using s by simp
    moreover have "digits_val 0 (replicate ?k 48) = 0"
      using digits_val_zeros[of 0 ?k "[]"] by simp
    ultimately show ?thesis using k' by (simp add: stoi_def Let_def isspace_unat)
  qed
  then show ?thesis using l by (simp add: pad_left_def)
qed

lemma stoi_zeros: "0 < k \<Longrightarrow> stoi (replicate k 48) = Inr 0"
  using stoi_digits[of "replicate k 48"] digits_val_zeros[of 0 k "[]"] by simp

end
