(* ===== verification/Faults.thy ===== *)
theory Faults
  imports CLib
begin

text \<open>
  The fault injector of \<^verbatim>\<open>src/sender.cpp\<close>: the three ordered queues of target
  sequence numbers (\<^verbatim>\<open>errorDrop\<close>, \<^verbatim>\<open>errorNACK\<close>, \<^verbatim>\<open>errorLostAck\<close>), filled once by
  \<^verbatim>\<open>promptForUserErrors\<close> from a line of operator input, and the head-of-queue test
  every decision point makes.  The random mode (\<^verbatim>\<open>rand() % 51 < 1\<close>) is a coin the
  environment passes to the sender's operations.  The lemmas show that the queue test
  fires exactly on the targets when the consulted sequence numbers increase, and that a
  head the consulted numbers never reach blocks the rest of the queue.
\<close>

datatype error_mode = Errors_None | Errors_Random | Errors_User

text \<open>\<^verbatim>\<open>cin >> artificialErrors\<close> and the validation in \<^verbatim>\<open>main\<close>: anything but
  \<^verbatim>\<open>"User"\<close> or \<^verbatim>\<open>"Random"\<close> becomes \<^verbatim>\<open>"None"\<close>.\<close>

definition error_mode_of :: "wire \<Rightarrow> error_mode" where
  "error_mode_of w =
     (if w = [85, 115, 101, 114] then Errors_User
      else if w = [82, 97, 110, 100, 111, 109] then Errors_Random else Errors_None)"

text \<open>
  The head-of-queue test, e.g. \<^verbatim>\<open>!errorNACK.empty() && seq == errorNACK.front()\<close>
  followed by \<^verbatim>\<open>errorNACK.erase(errorNACK.begin())\<close>: whether the fault fires, and the
  queue afterwards.
\<close>

definition consult_queue :: "int list \<Rightarrow> int \<Rightarrow> bool \<times> int list" where
  "consult_queue q n = (case q of [] \<Rightarrow> (False, []) | x # xs \<Rightarrow> if n = x then (True, xs) else (False, q))"

text \<open>The queue consulted at each of a sequence of decision points: the numbers it fires on.\<close>

fun run_queue :: "int list \<Rightarrow> int list \<Rightarrow> int list" where
  "run_queue q [] = []"
| "run_queue q (n # ns) =
     (let (hit, q') = consult_queue q n in (if hit then [n] else []) @ run_queue q' ns)"

subsection \<open>Parsing the operator's lists\<close>

text \<open>
  \<^verbatim>\<open>atoi\<close>: leading white space, an optional sign, then the longest run of digits;
  0 when there is none.  (An out-of-range value is undefined behaviour in C; the model
  keeps the mathematical value.)
\<close>

definition atoi :: "wire \<Rightarrow> int" where
  "atoi s =
     (let t = dropWhile isspace s in
      case t of
        [] \<Rightarrow> 0
      | c # cs \<Rightarrow> if c = 45 then - digits_val 0 cs
                  else if c = 43 then digits_val 0 cs else digits_val 0 t)"

text \<open>
  The character loop of \<^verbatim>\<open>promptForUserErrors\<close>: a white-space character ends the
  current number (pushing \<^verbatim>\<open>atoi(curNumber)\<close>, even when it is empty); any other
  character is appended to it; a non-empty number left at the end is pushed too.
\<close>

fun parse_errors_loop :: "wire \<Rightarrow> wire \<Rightarrow> int list \<Rightarrow> int list" where
  "parse_errors_loop [] cur acc = (if cur \<noteq> [] then acc @ [atoi cur] else acc)"
| "parse_errors_loop (c # cs) cur acc =
     (if isspace c then parse_errors_loop cs [] (acc @ [atoi cur])
      else parse_errors_loop cs (cur @ [c]) acc)"

text \<open>One of the three lists: parsed, then \<^verbatim>\<open>sort\<close>ed ascending.\<close>

definition parse_error_list :: "wire \<Rightarrow> int list" where
  "parse_error_list line = sort (parse_errors_loop line [] [])"

section \<open>Lemmas\<close>

lemma consult_queue_Cons [simp]:
  "consult_queue (x # xs) n = (if n = x then (True, xs) else (False, x # xs))"
  by (simp add: consult_queue_def)

lemma consult_queue_Nil [simp]: "consult_queue [] n = (False, [])"
  by (simp add: consult_queue_def)

lemma run_queue_Nil [simp]: "run_queue [] ns = []"
  by (induction ns) auto

text \<open>A head the consulted numbers never reach is never popped: nothing behind it fires.\<close>

lemma run_queue_blocked: "x \<notin> set ns \<Longrightarrow> run_queue (x # xs) ns = []"
  by (induction ns) auto

text \<open>C27: When the consulted sequence numbers strictly increase and every queued target is
  among them, the sorted, duplicate-free queue fires exactly on its targets, each once.\<close>

theorem run_queue_fires_on_targets:
  assumes "sorted_wrt (<) ns" and "sorted_wrt (<) q" and "set q \<subseteq> set ns"
  shows "run_queue q ns = filter (\<lambda>n. n \<in> set q) ns"
  using assms
proof (induction ns arbitrary: q)
  case Nil
  then show ?case by simp
next
  case (Cons n ns)
  show ?case
  proof (cases q)
    case Nil
    then show ?thesis by simp
  next
    case (Cons x xs)
    have ns: "sorted_wrt (<) ns" "\<forall>m\<in>set ns. n < m" using Cons.prems(1) by simp_all
    have q: "sorted_wrt (<) xs" "\<forall>y\<in>set xs. x < y" using Cons.prems(2) \<open>q = x # xs\<close> by simp_all
    show ?thesis
    proof (cases "n = x")
      case True
      then have "set xs \<subseteq> set ns" using Cons.prems(3) \<open>q = x # xs\<close> q(2) by auto
      then have "run_queue xs ns = filter (\<lambda>n. n \<in> set xs) ns"
        using ns(1) q(1) by (rule_tac Cons.IH) simp_all
      moreover have "filter (\<lambda>m. m \<in> set xs) ns = filter (\<lambda>m. m \<in> set q) ns"
        using ns(2) True \<open>q = x # xs\<close> by (auto intro!: filter_cong)
      ultimately show ?thesis using True \<open>q = x # xs\<close> by simp
    next
      case False
      then have "x \<in> set ns" using Cons.prems(3) \<open>q = x # xs\<close> by auto
      then have "n < x" using ns(2) by blast
      then have "n \<notin> set q" using q(2) \<open>q = x # xs\<close> by auto
      moreover have "run_queue q ns = filter (\<lambda>n. n \<in> set q) ns"
        using ns(1) Cons.prems(2,3) \<open>n \<notin> set q\<close> \<open>x \<in> set ns\<close> by (rule_tac Cons.IH) auto
      ultimately show ?thesis using False \<open>q = x # xs\<close> by simp
    qed
  qed
qed

lemma parse_errors_loop_acc: "set acc \<subseteq> set (parse_errors_loop s cur acc)"
  by (induction s cur acc rule: parse_errors_loop.induct) auto

lemma parse_errors_loop_append:
  "\<exists>cur' acc'. parse_errors_loop (xs @ ys) cur acc = parse_errors_loop ys cur' acc'"
  by (induction xs cur acc rule: parse_errors_loop.induct) auto

lemma atoi_Nil [simp]: "atoi [] = 0"
  by (simp add: atoi_def)

lemma parse_double_space_zero:
  assumes "isspace c" and "isspace c'"
  shows "0 \<in> set (parse_error_list (xs @ c # c' # ys))"
proof -
  obtain cur acc where e: "parse_errors_loop (xs @ c # c' # ys) [] [] = parse_errors_loop (c # c' # ys) cur acc"
    using parse_errors_loop_append by blast
  have "parse_errors_loop (c # c' # ys) cur acc = parse_errors_loop ys [] (acc @ [atoi cur, 0])"
    using assms by simp
  then show ?thesis
    using e parse_errors_loop_acc[of "acc @ [atoi cur, 0]" ys "[]"] by (auto simp: parse_error_list_def)
qed

text \<open>C28: An operator list typed with two consecutive white-space characters yields an
  entry 0, which sorts to the head of the queue, is never consulted by a positive sequence
  number, and so disables every fault of that list.\<close>

theorem double_space_disables_faults:
  assumes "isspace c" and "isspace c'" and "\<forall>n\<in>set ns. 0 < n"
  shows "run_queue (parse_error_list (xs @ c # c' # ys)) ns = []"
proof -
  let ?q = "parse_error_list (xs @ c # c' # ys)"
  have z: "0 \<in> set ?q" using assms(1,2) by (rule parse_double_space_zero)
  then obtain x xs' where q: "?q = x # xs'" by (cases ?q) auto
  have "sorted ?q" by (simp add: parse_error_list_def)
  then have "x \<le> 0" using z q by (auto simp: sorted_simps)
  then have "x \<notin> set ns" using assms(3) by fastforce
  then show ?thesis using q by (simp add: run_queue_blocked)
qed

lemma double_space_disables_faults_witness:
  "run_queue (parse_error_list ([51] @ 32 # 32 # [53])) [1, 2, 3, 4, 5] = []"
  using double_space_disables_faults[of 32 32 "[1, 2, 3, 4, 5]" "[51]" "[53]"]
  by (simp add: isspace_def)

lemma run_queue_fires_on_targets_witness:
  "sorted_wrt (<) [1, 2, 3, 4, 5 :: int] \<and> sorted_wrt (<) [2, 4 :: int] \<and>
   set [2, 4 :: int] \<subseteq> set [1, 2, 3, 4, 5] \<and> run_queue [2, 4] [1, 2, 3, 4, 5] = [2, 4]"
  using run_queue_fires_on_targets[of "[1, 2, 3, 4, 5 :: int]" "[2, 4]"] by simp

lemma parse_error_list_example: "parse_error_list [51, 32, 32, 53] = [0, 3, 5]"
  by (simp add: parse_error_list_def atoi_def isspace_def is_digit_def)

end
