(* ===== verification/Sender.thy ===== *)
theory Sender
  imports Packet Faults
begin

text \<open>
  The sender engine of \<^verbatim>\<open>src/sender.cpp\<close>: its global state as a record, the
  chunk handler \<^verbatim>\<open>processChunkData\<close>, one pass of the retransmission and window loop
  of \<^verbatim>\<open>checkPacketQueue\<close> and the loop itself (one clock reading per pass), the body of
  the ACK worker \<^verbatim>\<open>readACKMessages\<close> with \<^verbatim>\<open>findPacketBySeqNum\<close>, and the interleaving
  of \<^verbatim>\<open>main\<close>'s transfer loop with that worker (the session set-up and the chunking of
  \<^verbatim>\<open>main\<close> are in \<open>Session\<close>).  What the socket is handed
  by \<^verbatim>\<open>clientSocket.sendData\<close> is recorded, in order, in the field \<open>sent\<close>.  The lemmas
  give the in-flight list's invariant (it holds exactly the sequence numbers
  \<open>front .. end\<close>), the effect of one pass (the maximal acknowledged prefix is
  removed, every other timed-out packet is resent once), and the ACK handler's branches.
\<close>

section \<open>State\<close>

text \<open>
  The globals of \<^verbatim>\<open>sender.cpp\<close> that the engine reads or writes.  The window
  bounds are \<^verbatim>\<open>int\<close> in the source and never negative (front starts at 1, end at 0,
  both only grow); they are \<open>nat\<close> here.  \<open>seqRange\<close> is \<^verbatim>\<open>seqNumRange\<close>.
\<close>

record sender =
  curSeqNum :: nat
  numRetrans :: nat
  timeoutMS :: nat
  slidingWindowSize :: nat
  slidingWindowFront :: nat
  slidingWindowEnd :: nat
  seqRange :: int
  packetList :: "packet list"
  artificialErrors :: error_mode
  errorDrop :: "int list"
  errorNACK :: "int list"
  errorLostAck :: "int list"
  sent :: "wire list"

text \<open>The state when the data phase starts (after \<^verbatim>\<open>slidingWindowFront = 1\<close> in \<^verbatim>\<open>main\<close>).\<close>

definition init_sender ::
  "nat \<Rightarrow> nat \<Rightarrow> int \<Rightarrow> error_mode \<Rightarrow> int list \<Rightarrow> int list \<Rightarrow> int list \<Rightarrow> sender" where
  "init_sender tmo wsize rng mode drops nacks lost =
     \<lparr>curSeqNum = 0, numRetrans = 0, timeoutMS = tmo, slidingWindowSize = max 1 wsize,
      slidingWindowFront = 1, slidingWindowEnd = 0, seqRange = rng, packetList = [],
      artificialErrors = mode, errorDrop = drops, errorNACK = nacks, errorLostAck = lost,
      sent = []\<rparr>"

section \<open>processChunkData\<close>

text \<open>
  The next sequence number, a packet with a fresh deadline, the forced-NACK decision
  (queue head, then the random coin \<open>rnack\<close>), the drop decision (queue head, else the
  random coin \<open>rdrop\<close>), the transmission unless dropped, and the append to the
  in-flight list.  \<^verbatim>\<open>slidingWindowEnd\<close> grows unconditionally.
\<close>

definition processChunkData :: "nat \<Rightarrow> bool \<Rightarrow> bool \<Rightarrow> wire \<Rightarrow> sender \<Rightarrow> sender" where
  "processChunkData now rnack rdrop chunkData s =
     (let seq = Suc (curSeqNum s);
          newPacket = setTimeout now (timeoutMS s)
                        (new_packet\<lparr>seqNum := seq, seqNumRange := seqRange s, data := chunkData\<rparr>);
          (forcedQ, nacks) = consult_queue (errorNACK s) (int seq);
          forceNACK = (forcedQ \<or> (artificialErrors s = Errors_Random \<and> rnack));
          (droppedQ, drops) = consult_queue (errorDrop s) (int seq);
          sendPacketData = (\<not> droppedQ \<and> \<not> (artificialErrors s = Errors_Random \<and> rdrop))
      in s\<lparr>curSeqNum := seq, slidingWindowEnd := Suc (slidingWindowEnd s),
           errorNACK := nacks, errorDrop := drops,
           sent := (if sendPacketData then sent s @ [createPacketString forceNACK newPacket] else sent s),
           packetList := packetList s @ [newPacket]\<rparr>)"

section \<open>checkPacketQueue\<close>

text \<open>
  One pass of the inner \<^verbatim>\<open>while (iterator != packetList.end())\<close> loop at clock
  reading \<open>now\<close>: a packet at the window front whose ack flag is set is erased and the
  front advances (the scan continues with the next packet, so a run of acknowledged
  packets is erased in one pass); otherwise a packet past its deadline gets a new
  deadline and is retransmitted, and \<^verbatim>\<open>numRetrans\<close> grows.
\<close>

fun scan_packets :: "nat \<Rightarrow> sender \<Rightarrow> packet list \<Rightarrow> sender \<times> packet list" where
  "scan_packets now s [] = (s, [])"
| "scan_packets now s (p # ps) =
     (if seqNum p = slidingWindowFront s \<and> ack p = 1 then
        scan_packets now (s\<lparr>slidingWindowFront := Suc (slidingWindowFront s)\<rparr>) ps
      else if hasTimedOut now p then
        (let p' = setTimeout now (timeoutMS s) p;
             (s', ps') = scan_packets now
                           (s\<lparr>sent := sent s @ [createPacketString False p'],
                              numRetrans := Suc (numRetrans s)\<rparr>) ps
         in (s', p' # ps'))
      else (let (s', ps') = scan_packets now s ps in (s', p # ps')))"

definition check_pass :: "nat \<Rightarrow> sender \<Rightarrow> sender" where
  "check_pass now s = (let (s', ps) = scan_packets now s (packetList s) in s'\<lparr>packetList := ps\<rparr>)"

text \<open>The exit test after a pass: all delivered, or room for one more packet.\<close>

definition queue_done :: "bool \<Rightarrow> sender \<Rightarrow> bool" where
  "queue_done waitTillFinish s =
     (if waitTillFinish then packetList s = []
      else slidingWindowEnd s < slidingWindowFront s + slidingWindowSize s - 1)"

text \<open>
  The busy loop: one pass per clock reading, until the exit test holds.  The list of
  readings is the fuel; running out of it is \<open>None\<close> (the loop is still spinning).
\<close>

fun checkPacketQueue :: "bool \<Rightarrow> nat list \<Rightarrow> sender \<Rightarrow> sender option" where
  "checkPacketQueue w [] s = None"
| "checkPacketQueue w (now # nows) s =
     (let s' = check_pass now s in if queue_done w s' then Some s' else checkPacketQueue w nows s')"

section \<open>readACKMessages\<close>

text \<open>\<^verbatim>\<open>findPacketBySeqNum\<close>: the position of the first packet with that number.\<close>

fun findPacketBySeqNum :: "nat \<Rightarrow> packet list \<Rightarrow> nat option" where
  "findPacketBySeqNum n [] = None"
| "findPacketBySeqNum n (p # ps) =
     (if seqNum p = n then Some 0 else map_option Suc (findPacketBySeqNum n ps))"

text \<open>
  The handling of one decoded reply, under the lock: a reply whose number heads the
  lost-ACK queue is dropped (and the head popped); in random mode the coin \<open>rlost\<close>
  may drop it; otherwise the matching in-flight packet gets a deadline 500 ms ahead and
  is marked acknowledged on \<^verbatim>\<open>ACK_OK\<close>, or retransmitted on any other code.
\<close>

definition readACK :: "nat \<Rightarrow> bool \<Rightarrow> packet \<Rightarrow> sender \<Rightarrow> sender" where
  "readACK now rlost ackPacket s =
     (let (lostQ, lost) = consult_queue (errorLostAck s) (int (seqNum ackPacket)) in
      if lostQ then s\<lparr>errorLostAck := lost\<rparr>
      else if artificialErrors s = Errors_Random \<and> rlost then s
      else case findPacketBySeqNum (seqNum ackPacket) (packetList s) of
             None \<Rightarrow> s
           | Some i \<Rightarrow>
               (let p = setTimeout now 500 (packetList s ! i) in
                if ack ackPacket = ACK_OK then s\<lparr>packetList := (packetList s)[i := p\<lparr>ack := 1\<rparr>]\<rparr>
                else s\<lparr>packetList := (packetList s)[i := p],
                       sent := sent s @ [createPacketString False p],
                       numRetrans := Suc (numRetrans s)\<rparr>))"

section \<open>The transfer loop of main, interleaved with the ACK worker\<close>

text \<open>
  \<^verbatim>\<open>main\<close> alternates \<^verbatim>\<open>processChunkData\<close> (chunk \<open>i\<close> gets sequence number
  \<open>i + 1\<close>) with \<^verbatim>\<open>checkPacketQueue()\<close> until the last chunk, then runs
  \<^verbatim>\<open>checkPacketQueue(true)\<close>.  Each of these holds \<^verbatim>\<open>ackMutex\<close> for one chunk or one
  pass, and the ACK worker holds it for one reply, so the atomic steps are: a chunk, a
  pass (at any clock reading), a reply (any decoded packet, any coin), in any order.
\<close>

datatype main_pc = Sending | Checking | Draining | Finished

inductive sender_reach :: "wire list \<Rightarrow> main_pc \<Rightarrow> sender \<Rightarrow> bool" for chunks where
  start: "sender_reach chunks Sending (init_sender tmo wsize rng mode drops nacks lost)"
| chunk: "sender_reach chunks Sending s \<Longrightarrow> curSeqNum s < length chunks \<Longrightarrow>
    sender_reach chunks Checking (processChunkData now rnack rdrop (chunks ! curSeqNum s) s)"
| spin: "sender_reach chunks Checking s \<Longrightarrow> \<not> queue_done False (check_pass now s) \<Longrightarrow>
    sender_reach chunks Checking (check_pass now s)"
| room: "sender_reach chunks Checking s \<Longrightarrow> queue_done False (check_pass now s) \<Longrightarrow>
    curSeqNum s < length chunks \<Longrightarrow> sender_reach chunks Sending (check_pass now s)"
| last: "sender_reach chunks Checking s \<Longrightarrow> queue_done False (check_pass now s) \<Longrightarrow>
    curSeqNum s = length chunks \<Longrightarrow> sender_reach chunks Draining (check_pass now s)"
| drain: "sender_reach chunks Draining s \<Longrightarrow> \<not> queue_done True (check_pass now s) \<Longrightarrow>
    sender_reach chunks Draining (check_pass now s)"
| drained: "sender_reach chunks Draining s \<Longrightarrow> queue_done True (check_pass now s) \<Longrightarrow>
    sender_reach chunks Finished (check_pass now s)"
| reply: "sender_reach chunks pc s \<Longrightarrow> pc \<noteq> Finished \<Longrightarrow>
    sender_reach chunks pc (readACK now rlost a s)"

section \<open>Reference descriptions\<close>

text \<open>What one pass does to a packet it does not erase, and how many packets it erases.\<close>

definition refresh :: "nat \<Rightarrow> nat \<Rightarrow> packet \<Rightarrow> packet" where
  "refresh now tmo p = (if hasTimedOut now p then setTimeout now tmo p else p)"

definition acked_prefix_len :: "packet list \<Rightarrow> nat" where
  "acked_prefix_len ps = length (takeWhile (\<lambda>p. ack p = 1) ps)"

definition resend_frames :: "nat \<Rightarrow> nat \<Rightarrow> packet list \<Rightarrow> wire list" where
  "resend_frames now tmo ps =
     map (\<lambda>p. createPacketString False (setTimeout now tmo p)) (filter (hasTimedOut now) ps)"

section \<open>Invariant\<close>

text \<open>
  The in-flight list holds exactly the numbers \<open>front .. end\<close> in order, the last
  number handed out is \<open>end\<close>, and at most a window of them is outstanding.
\<close>

definition sender_inv :: "sender \<Rightarrow> bool" where
  "sender_inv s \<longleftrightarrow>
     map seqNum (packetList s) = [slidingWindowFront s..<Suc (slidingWindowEnd s)] \<and>
     curSeqNum s = slidingWindowEnd s \<and> 1 \<le> slidingWindowFront s \<and>
     slidingWindowFront s \<le> Suc (slidingWindowEnd s) \<and>
     Suc (slidingWindowEnd s) \<le> slidingWindowFront s + slidingWindowSize s"

definition run_inv :: "wire list \<Rightarrow> main_pc \<Rightarrow> sender \<Rightarrow> bool" where
  "run_inv chunks pc s \<longleftrightarrow>
     sender_inv s \<and> curSeqNum s \<le> length chunks \<and>
     (pc = Sending \<longrightarrow> queue_done False s) \<and>
     (pc = Draining \<or> pc = Finished \<longrightarrow> curSeqNum s = length chunks) \<and>
     (pc = Finished \<longrightarrow> packetList s = [])"

section \<open>Lemmas\<close>

declare upt.simps(2) [simp del]

subsection \<open>One pass of checkPacketQueue\<close>

lemma scan_packets_no_front:
  "\<forall>p\<in>set ps. \<not> (seqNum p = slidingWindowFront s \<and> ack p = 1) \<Longrightarrow>
   scan_packets now s ps =
     (s\<lparr>sent := sent s @ resend_frames now (timeoutMS s) ps,
        numRetrans := numRetrans s + length (filter (hasTimedOut now) ps)\<rparr>,
      map (refresh now (timeoutMS s)) ps)"
proof (induction ps arbitrary: s)
  case Nil
  then show ?case by (simp add: resend_frames_def)
next
  case (Cons p ps)
  then show ?case by (auto simp: resend_frames_def refresh_def Let_def)
qed

lemma scan_packets_consecutive:
  "map seqNum ps = [slidingWindowFront s..<e] \<Longrightarrow>
   scan_packets now s ps =
     scan_packets now (s\<lparr>slidingWindowFront := slidingWindowFront s + acked_prefix_len ps\<rparr>)
       (drop (acked_prefix_len ps) ps)"
proof (induction ps arbitrary: s)
  case Nil
  then show ?case by (simp add: acked_prefix_len_def)
next
  case (Cons p ps)
  have p: "seqNum p = slidingWindowFront s"
    and ps: "map seqNum ps = [Suc (slidingWindowFront s)..<e]"
    using map_eq_upt_Cons[OF Cons.prems] by blast+
  show ?case
  proof (cases "ack p = 1")
    case True
    have "map seqNum ps = [slidingWindowFront (s\<lparr>slidingWindowFront := Suc (slidingWindowFront s)\<rparr>)..<e]"
      using ps by simp
    note IH = Cons.IH[OF this]
    show ?thesis using True p by (simp add: IH acked_prefix_len_def)
  next
    case False
    then show ?thesis by (simp add: acked_prefix_len_def)
  qed
qed

lemma drop_acked_prefix_no_front:
  "map seqNum ps = [f..<e] \<Longrightarrow>
   \<forall>p\<in>set (drop (acked_prefix_len ps) ps). \<not> (seqNum p = f + acked_prefix_len ps \<and> ack p = 1)"
proof (induction ps arbitrary: f)
  case Nil
  then show ?case by simp
next
  case (Cons p ps)
  have p: "seqNum p = f" and ps: "map seqNum ps = [Suc f..<e]"
    using map_eq_upt_Cons[OF Cons.prems] by blast+
  show ?case
  proof (cases "ack p = 1")
    case True
    then have k: "acked_prefix_len (p # ps) = Suc (acked_prefix_len ps)"
      by (simp add: acked_prefix_len_def)
    show ?thesis using Cons.IH[OF ps] by (simp add: k)
  next
    case False
    have "\<forall>q\<in>set ps. Suc f \<le> seqNum q"
    proof
      fix q assume "q \<in> set ps"
      then have "seqNum q \<in> set (map seqNum ps)" by simp
      then show "Suc f \<le> seqNum q" using ps by simp
    qed
    then show ?thesis using False p by (auto simp: acked_prefix_len_def)
  qed
qed

lemma acked_prefix_len_le: "acked_prefix_len ps \<le> length ps"
  by (simp add: acked_prefix_len_def length_takeWhile_le)

lemma check_pass_eq:
  assumes "sender_inv s"
  shows "check_pass now s =
           s\<lparr>slidingWindowFront := slidingWindowFront s + acked_prefix_len (packetList s),
             packetList := map (refresh now (timeoutMS s))
                             (drop (acked_prefix_len (packetList s)) (packetList s)),
             sent := sent s @ resend_frames now (timeoutMS s)
                                (drop (acked_prefix_len (packetList s)) (packetList s)),
             numRetrans := numRetrans s + length (filter (hasTimedOut now)
                                (drop (acked_prefix_len (packetList s)) (packetList s)))\<rparr>"
proof -
  let ?ps = "packetList s" and ?k = "acked_prefix_len (packetList s)"
  let ?s1 = "s\<lparr>slidingWindowFront := slidingWindowFront s + ?k\<rparr>"
  have m: "map seqNum ?ps = [slidingWindowFront s..<Suc (slidingWindowEnd s)]"
    using assms by (simp add: sender_inv_def)
  have "scan_packets now s ?ps = scan_packets now ?s1 (drop ?k ?ps)"
    using m by (rule scan_packets_consecutive)
  also have "\<dots> = (?s1\<lparr>sent := sent ?s1 @ resend_frames now (timeoutMS ?s1) (drop ?k ?ps),
        numRetrans := numRetrans ?s1 + length (filter (hasTimedOut now) (drop ?k ?ps))\<rparr>,
      map (refresh now (timeoutMS ?s1)) (drop ?k ?ps))"
    using drop_acked_prefix_no_front[OF m] by (intro scan_packets_no_front) simp
  finally show ?thesis by (simp add: check_pass_def)
qed

lemma findPacketBySeqNum_Some:
  "findPacketBySeqNum n ps = Some i \<Longrightarrow> i < length ps \<and> seqNum (ps ! i) = n"
  by (induction n ps arbitrary: i rule: findPacketBySeqNum.induct) (auto split: if_splits)

lemma findPacketBySeqNum_None:
  "findPacketBySeqNum n ps = None \<longleftrightarrow> n \<notin> seqNum ` set ps"
  by (induction n ps rule: findPacketBySeqNum.induct) auto

subsection \<open>The invariant is kept\<close>

lemma sender_inv_init: "sender_inv (init_sender tmo wsize rng mode drops nacks lost)"
  by (simp add: sender_inv_def init_sender_def)

lemma check_pass_inv: "sender_inv s \<Longrightarrow> sender_inv (check_pass now s)"
proof -
  assume inv: "sender_inv s"
  let ?ps = "packetList s" and ?k = "acked_prefix_len (packetList s)"
  have m: "map seqNum ?ps = [slidingWindowFront s..<Suc (slidingWindowEnd s)]"
    using inv by (simp add: sender_inv_def)
  have "length ?ps = Suc (slidingWindowEnd s) - slidingWindowFront s"
    using arg_cong[OF m, of length] by simp
  then have len: "?k \<le> Suc (slidingWindowEnd s) - slidingWindowFront s"
    using acked_prefix_len_le[of ?ps] by simp
  have "map seqNum (map (refresh now (timeoutMS s)) (drop ?k ?ps)) = drop ?k (map seqNum ?ps)"
    by (simp add: refresh_def setTimeout_def drop_map comp_def)
  also have "\<dots> = drop ?k [slidingWindowFront s..<Suc (slidingWindowEnd s)]"
    by (simp only: m)
  also have "\<dots> = [slidingWindowFront s + ?k..<Suc (slidingWindowEnd s)]"
    by simp
  finally show ?thesis using inv len by (simp add: check_pass_eq sender_inv_def) linarith
qed

lemma readACK_packets:
  "map seqNum (packetList (readACK now rlost a s)) = map seqNum (packetList s) \<and>
   slidingWindowFront (readACK now rlost a s) = slidingWindowFront s \<and>
   slidingWindowEnd (readACK now rlost a s) = slidingWindowEnd s \<and>
   slidingWindowSize (readACK now rlost a s) = slidingWindowSize s \<and>
   curSeqNum (readACK now rlost a s) = curSeqNum s"
proof (cases "findPacketBySeqNum (seqNum a) (packetList s)")
  case None
  then show ?thesis by (auto simp: readACK_def Let_def split: prod.splits)
next
  case (Some i)
  then have i: "i < length (packetList s)" by (simp add: findPacketBySeqNum_Some)
  have "map seqNum ((packetList s)[i := q]) = map seqNum (packetList s)"
    if "seqNum q = seqNum (packetList s ! i)" for q
    using i that by (simp add: map_update) (metis list_update_id nth_map)
  then show ?thesis using Some
    by (auto simp: readACK_def Let_def setTimeout_def split: prod.splits)
qed

lemma readACK_inv: "sender_inv s \<Longrightarrow> sender_inv (readACK now rlost a s)"
  using readACK_packets[of now rlost a s] by (simp add: sender_inv_def)

lemma processChunkData_inv:
  "sender_inv s \<Longrightarrow> queue_done False s \<Longrightarrow> sender_inv (processChunkData now rnack rdrop c s)"
  by (auto simp: sender_inv_def queue_done_def processChunkData_def Let_def setTimeout_def
      new_packet_def upt_Suc_append split: prod.splits)

lemma check_pass_counters:
  "curSeqNum (check_pass now s) = curSeqNum s \<and> slidingWindowEnd (check_pass now s) = slidingWindowEnd s \<and>
   slidingWindowSize (check_pass now s) = slidingWindowSize s"
proof -
  have "curSeqNum (fst (scan_packets now s ps)) = curSeqNum s \<and>
        slidingWindowEnd (fst (scan_packets now s ps)) = slidingWindowEnd s \<and>
        slidingWindowSize (fst (scan_packets now s ps)) = slidingWindowSize s" for ps
    by (induction now s ps rule: scan_packets.induct) (auto simp: Let_def split: prod.splits)
  from this[of "packetList s"] show ?thesis by (simp add: check_pass_def case_prod_beta)
qed

lemma processChunkData_curSeqNum:
  "curSeqNum (processChunkData now rnack rdrop c s) = Suc (curSeqNum s)"
  by (simp add: processChunkData_def Let_def split: prod.splits)

lemma sender_reach_run_inv: "sender_reach chunks pc s \<Longrightarrow> run_inv chunks pc s"
proof (induction rule: sender_reach.induct)
  case (start tmo wsize rng mode drops nacks lost)
  then show ?case
    using sender_inv_init[of tmo wsize rng mode drops nacks lost]
    by (simp add: run_inv_def queue_done_def init_sender_def)
next
  case (chunk s now rnack rdrop)
  then have "sender_inv s" "queue_done False s" by (simp_all add: run_inv_def)
  then have "sender_inv (processChunkData now rnack rdrop (chunks ! curSeqNum s) s)"
    by (rule processChunkData_inv)
  then show ?case using chunk.hyps(2) by (simp add: run_inv_def processChunkData_curSeqNum)
next
  case (spin s now)
  then show ?case by (simp add: run_inv_def check_pass_inv check_pass_counters)
next
  case (room s now)
  then show ?case by (simp add: run_inv_def check_pass_inv check_pass_counters)
next
  case (last s now)
  then show ?case by (simp add: run_inv_def check_pass_inv check_pass_counters)
next
  case (drain s now)
  then show ?case by (simp add: run_inv_def check_pass_inv check_pass_counters)
next
  case (drained s now)
  then show ?case by (simp add: run_inv_def check_pass_inv check_pass_counters queue_done_def)
next
  case (reply pc s now rlost a)
  then show ?case
    using readACK_packets[of now rlost a s] by (auto simp: run_inv_def readACK_inv queue_done_def)
qed

subsection \<open>Properties of the sender\<close>

text \<open>C1: Window invariant: in every state the transfer loop and the ACK worker can reach,
  the in-flight list holds exactly the sequence numbers front..end in order and
  end - front + 1 never exceeds the window size; and whenever the main loop is about to
  send a new chunk there is room for it.\<close>

theorem window_invariant:
  assumes "sender_reach chunks pc s"
  shows "map seqNum (packetList s) = [slidingWindowFront s..<Suc (slidingWindowEnd s)] \<and>
         Suc (slidingWindowEnd s) \<le> slidingWindowFront s + slidingWindowSize s \<and>
         (pc = Sending \<longrightarrow> Suc (Suc (slidingWindowEnd s)) \<le> slidingWindowFront s + slidingWindowSize s)"
  using sender_reach_run_inv[OF assms] by (auto simp: run_inv_def sender_inv_def queue_done_def)

lemma window_invariant_witness:
  "sender_reach [[65], [66]] Checking
     (processChunkData 0 False False ([[65], [66]] ! curSeqNum (init_sender 100 3 0 Errors_None [] [] []))
        (init_sender 100 3 0 Errors_None [] [] [])) \<and>
   Suc (slidingWindowEnd (processChunkData 0 False False [65] (init_sender 100 3 0 Errors_None [] [] [])))
     \<le> slidingWindowFront (processChunkData 0 False False [65] (init_sender 100 3 0 Errors_None [] [] []))
       + slidingWindowSize (processChunkData 0 False False [65] (init_sender 100 3 0 Errors_None [] [] []))"
proof -
  have "sender_reach [[65], [66]] Sending (init_sender 100 3 0 Errors_None [] [] [])"
    by (rule sender_reach.start)
  then have r: "sender_reach [[65], [66]] Checking
     (processChunkData 0 False False ([[65], [66]] ! curSeqNum (init_sender 100 3 0 Errors_None [] [] []))
        (init_sender 100 3 0 Errors_None [] [] []))"
    by (rule sender_reach.chunk) (simp add: init_sender_def)
  show ?thesis using r window_invariant[OF r] by (simp add: init_sender_def)
qed

text \<open>C12: One pass of checkPacketQueue advances the window front by exactly the number of
  contiguous acknowledged packets at the front and erases exactly those; every other
  packet whose deadline has passed is retransmitted once (with a correct checksum and a
  new deadline) and counted once in numRetrans.\<close>

theorem check_pass_window:
  assumes "sender_inv s"
  shows "slidingWindowFront (check_pass now s) = slidingWindowFront s + acked_prefix_len (packetList s) \<and>
         map seqNum (packetList (check_pass now s)) = drop (acked_prefix_len (packetList s)) (map seqNum (packetList s)) \<and>
         numRetrans (check_pass now s) =
           numRetrans s + length (filter (hasTimedOut now) (drop (acked_prefix_len (packetList s)) (packetList s))) \<and>
         sent (check_pass now s) =
           sent s @ resend_frames now (timeoutMS s) (drop (acked_prefix_len (packetList s)) (packetList s))"
  using assms by (simp add: check_pass_eq drop_map comp_def refresh_def setTimeout_def)

lemma check_pass_window_witness:
  "sender_inv (init_sender 100 3 0 Errors_None [] [] []) \<and>
   slidingWindowFront (check_pass 5 (init_sender 100 3 0 Errors_None [] [] [])) = 1 + acked_prefix_len []"
  using check_pass_window[of "init_sender 100 3 0 Errors_None [] [] []" 5]
    sender_inv_init[of 100 3 0 Errors_None "[]" "[]" "[]"]
  by (simp add: init_sender_def)

text \<open>C21: A reply whose sequence number heads the lost-ACK queue is discarded: the only
  effect of readACK is to pop that queue entry.\<close>

theorem readACK_lost_ack:
  assumes "errorLostAck s = int (seqNum a) # q"
  shows "readACK now rlost a s = s\<lparr>errorLostAck := q\<rparr>"
  using assms by (simp add: readACK_def)

lemma readACK_lost_ack_witness:
  "errorLostAck (init_sender 100 3 0 Errors_User [] [] [1]) = int (seqNum (new_packet\<lparr>seqNum := 1\<rparr>)) # [] \<and>
   readACK 7 False (new_packet\<lparr>seqNum := 1\<rparr>) (init_sender 100 3 0 Errors_User [] [] [1])
     = (init_sender 100 3 0 Errors_User [] [] [1])\<lparr>errorLostAck := []\<rparr>"
  using readACK_lost_ack[of "init_sender 100 3 0 Errors_User [] [] [1]" "new_packet\<lparr>seqNum := 1\<rparr>" "[]" 7 False]
  by (simp add: init_sender_def new_packet_def)

text \<open>C17: A reply that is not discarded and matches an in-flight packet refreshes that
  packet's deadline to 500 ms ahead; on ACK_OK it only sets the packet's ack flag (nothing
  is sent, the window does not move), on any other code it retransmits the packet with its
  correct checksum and increments numRetrans by exactly one.\<close>

theorem readACK_matched:
  assumes "\<not> fst (consult_queue (errorLostAck s) (int (seqNum a)))"
    and "\<not> (artificialErrors s = Errors_Random \<and> rlost)"
    and "findPacketBySeqNum (seqNum a) (packetList s) = Some i"
  shows "(ack a = ACK_OK \<longrightarrow>
            readACK now rlost a s = s\<lparr>packetList := (packetList s)[i := (packetList s ! i)\<lparr>timeoutTimePoint := now + 500, ack := 1\<rparr>]\<rparr>) \<and>
         (ack a \<noteq> ACK_OK \<longrightarrow>
            readACK now rlost a s = s\<lparr>packetList := (packetList s)[i := (packetList s ! i)\<lparr>timeoutTimePoint := now + 500\<rparr>],
                                      sent := sent s @ [createPacketString False ((packetList s ! i)\<lparr>timeoutTimePoint := now + 500\<rparr>)],
                                      numRetrans := Suc (numRetrans s)\<rparr>)"
proof -
  obtain lq where "consult_queue (errorLostAck s) (int (seqNum a)) = (False, lq)"
    using assms(1) by (cases "consult_queue (errorLostAck s) (int (seqNum a))") auto
  moreover have "lq = errorLostAck s" using calculation
    by (auto simp: consult_queue_def split: list.splits if_splits)
  ultimately show ?thesis using assms(2,3) by (auto simp: readACK_def setTimeout_def Let_def)
qed

lemma readACK_matched_witness:
  "\<not> fst (consult_queue (errorLostAck (processChunkData 0 False False [65] (init_sender 100 3 0 Errors_None [] [] [])))
          (int (seqNum (new_packet\<lparr>seqNum := 1, ack := 2\<rparr>)))) \<and>
   \<not> (artificialErrors (processChunkData 0 False False [65] (init_sender 100 3 0 Errors_None [] [] [])) = Errors_Random \<and> False) \<and>
   findPacketBySeqNum (seqNum (new_packet\<lparr>seqNum := 1, ack := 2\<rparr>))
     (packetList (processChunkData 0 False False [65] (init_sender 100 3 0 Errors_None [] [] []))) = Some 0 \<and>
   numRetrans (readACK 9 False (new_packet\<lparr>seqNum := 1, ack := 2\<rparr>)
     (processChunkData 0 False False [65] (init_sender 100 3 0 Errors_None [] [] []))) = 1"
proof -
  let ?s = "processChunkData 0 False False [65] (init_sender 100 3 0 Errors_None [] [] [])"
  let ?a = "new_packet\<lparr>seqNum := 1, ack := 2\<rparr>"
  have h: "\<not> fst (consult_queue (errorLostAck ?s) (int (seqNum ?a)))"
    "\<not> (artificialErrors ?s = Errors_Random \<and> False)"
    "findPacketBySeqNum (seqNum ?a) (packetList ?s) = Some 0"
    by (simp_all add: processChunkData_def init_sender_def new_packet_def Let_def setTimeout_def)
  have "ack ?a \<noteq> ACK_OK" by (simp add: new_packet_def ACK_OK_def)
  then have "numRetrans (readACK 9 False ?a ?s) = Suc (numRetrans ?s)"
    using readACK_matched[OF h, of 9] by simp
  then show ?thesis using h by (simp add: processChunkData_def init_sender_def Let_def)
qed

text \<open>C20: Forced NACK: a chunk whose sequence number heads the forced-NACK queue (and is not
  dropped) is transmitted once with checksum field 0 and the queue entry is consumed; the
  packet kept in flight carries the chunk, so every retransmission of it is encoded with
  its true checksum.\<close>

theorem processChunkData_forced_nack:
  assumes "errorNACK s = int (Suc (curSeqNum s)) # q"
    and "\<not> fst (consult_queue (errorDrop s) (int (Suc (curSeqNum s))))"
    and "\<not> (artificialErrors s = Errors_Random \<and> rdrop)"
  shows "errorNACK (processChunkData now rnack rdrop c s) = q \<and>
         sent (processChunkData now rnack rdrop c s) =
           sent s @ [createPacketString True (last (packetList (processChunkData now rnack rdrop c s)))] \<and>
         seqNum (last (packetList (processChunkData now rnack rdrop c s))) = Suc (curSeqNum s) \<and>
         data (last (packetList (processChunkData now rnack rdrop c s))) = c"
proof -
  obtain dq where "consult_queue (errorDrop s) (int (Suc (curSeqNum s))) = (False, dq)"
    using assms(2) by (cases "consult_queue (errorDrop s) (int (Suc (curSeqNum s)))") auto
  then show ?thesis using assms(1,3)
    by (simp add: processChunkData_def Let_def setTimeout_def new_packet_def)
qed

lemma processChunkData_forced_nack_witness:
  "errorNACK (init_sender 100 3 0 Errors_User [] [1] []) = int (Suc (curSeqNum (init_sender 100 3 0 Errors_User [] [1] []))) # [] \<and>
   \<not> fst (consult_queue (errorDrop (init_sender 100 3 0 Errors_User [] [1] [])) (int (Suc (curSeqNum (init_sender 100 3 0 Errors_User [] [1] []))))) \<and>
   \<not> (artificialErrors (init_sender 100 3 0 Errors_User [] [1] []) = Errors_Random \<and> False) \<and>
   errorNACK (processChunkData 0 False False [65] (init_sender 100 3 0 Errors_User [] [1] [])) = []"
  using processChunkData_forced_nack[of "init_sender 100 3 0 Errors_User [] [1] []" "[]" False 0 False "[65]"]
  by (simp add: init_sender_def)

text \<open>C23: Draining terminates once every in-flight packet is acknowledged: from a state of
  the invariant whose in-flight packets all carry the ack flag, checkPacketQueue(true)
  returns after one pass with an empty in-flight list and the front past the last packet.\<close>

theorem checkPacketQueue_drains:
  assumes "sender_inv s" and "\<forall>p\<in>set (packetList s). ack p = 1"
  shows "\<exists>s'. checkPacketQueue True (now # nows) s = Some s' \<and> packetList s' = [] \<and>
              slidingWindowFront s' = Suc (slidingWindowEnd s)"
proof -
  have "takeWhile (\<lambda>p. ack p = 1) (packetList s) = packetList s"
    using assms(2) by simp
  then have k: "acked_prefix_len (packetList s) = length (packetList s)"
    unfolding acked_prefix_len_def by (rule arg_cong)
  have "length (packetList s) = Suc (slidingWindowEnd s) - slidingWindowFront s"
    using arg_cong[OF conjunct1[OF assms(1)[unfolded sender_inv_def]], of length] by simp
  then show ?thesis using assms(1) k
    by (simp add: check_pass_eq queue_done_def sender_inv_def resend_frames_def)
qed

lemma checkPacketQueue_drains_witness:
  "\<exists>s'. checkPacketQueue True [900]
          (init_sender 100 3 0 Errors_None [] [] []
            \<lparr>curSeqNum := 2, slidingWindowEnd := 2,
             packetList := [new_packet\<lparr>seqNum := 1, ack := 1\<rparr>, new_packet\<lparr>seqNum := 2, ack := 1\<rparr>]\<rparr>) = Some s' \<and>
        packetList s' = [] \<and> slidingWindowFront s' = 3"
  using checkPacketQueue_drains[of
     "init_sender 100 3 0 Errors_None [] [] []
            \<lparr>curSeqNum := 2, slidingWindowEnd := 2,
             packetList := [new_packet\<lparr>seqNum := 1, ack := 1\<rparr>, new_packet\<lparr>seqNum := 2, ack := 1\<rparr>]\<rparr>" 900 "[]"]
  by (simp add: init_sender_def sender_inv_def new_packet_def upt_rec)

end
