(* ===== verification/Receiver.thy ===== *)
theory Receiver
  imports Packet CLib "HOL-Library.Signed_Division"
begin

text \<open>
  The receiver engine of \<^verbatim>\<open>src/receiver.cpp\<close>: its global state, the handshake parser
  \<^verbatim>\<open>readInitialPacket\<close>, the flush loop \<^verbatim>\<open>processPacketBuffer\<close>, the reply
  \<^verbatim>\<open>sendAckMessage\<close> and the body of the socket loop of \<^verbatim>\<open>main\<close>, which handles one
  string returned by \<^verbatim>\<open>getFromSocket\<close>, and the check of the port argument.  The output file is the list of bytes written
  to it, the ACK channel the list of strings handed to \<^verbatim>\<open>sendData\<close>.  The lemmas give
  the reorder buffer's invariant and its preservation by every message, the contract of
  the flush step, the equivalence of the fast path with the general insert-and-sort, the
  behaviour on duplicates, checksum failures and before the handshake, and a refinement
  of an abstract receiver that delivers the longest received prefix.
\<close>

section \<open>State\<close>

text \<open>
  The globals of \<^verbatim>\<open>receiver.cpp\<close> (lines 18-30) and the counters local to \<^verbatim>\<open>main\<close>
  (lines 180-182).  \<^verbatim>\<open>map<int, bool> donePackets\<close> only ever stores \<^verbatim>\<open>1\<close> and is
  only queried with \<^verbatim>\<open>find\<close>, so it is the set of its keys.  Fields whose name clashes
  with a field of the packet or sender records carry the suffix \<open>_r\<close>.
\<close>

record receiver =
  packetBuffer :: "packet list"
  senderFile :: wire
  outputFileName :: wire
  curPktNum :: int
  lastPktNum :: int
  numPackets :: int
  fileSize :: int
  packetSize :: int
  slidingWindowSize_r :: int
  seqNumRange_r :: int
  protocol :: wire
  donePackets :: "nat set"
  numReceived :: int
  lastReceived :: int
  acksSent :: "wire list"

definition init_receiver :: receiver where
  "init_receiver =
     \<lparr>packetBuffer = [], senderFile = [], outputFileName = [], curPktNum = 0, lastPktNum = 0,
      numPackets = 0, fileSize = 0, packetSize = 0, slidingWindowSize_r = 0, seqNumRange_r = 0,
      protocol = [83, 82], donePackets = {}, numReceived = 0, lastReceived = 0, acksSent = []\<rparr>"

section \<open>readInitialPacket\<close>

text \<open>\<^verbatim>\<open>stoi(packetData.substr(pos, len))\<close>.\<close>

definition stoi_at :: "wire \<Rightarrow> nat \<Rightarrow> nat \<Rightarrow> int cpp_result" where
  "stoi_at s pos len = res_bind (cpp_substr s pos len) stoi"

text \<open>
  The payload is read as a C string (up to its NUL), then cut into the fixed-width
  fields; each \<^verbatim>\<open>substr\<close> or \<^verbatim>\<open>stoi\<close> may throw.  Opening the output file with
  \<^verbatim>\<open>ios::out\<close> truncates it.
\<close>

definition readInitialPacket :: "wire \<Rightarrow> receiver \<Rightarrow> receiver cpp_result" where
  "readInitialPacket raw r =
     res_bind (c_str raw) (\<lambda>pd.
     res_bind (stoi_at pd 0 16) (\<lambda>fs.
     res_bind (stoi_at pd 16 16) (\<lambda>np.
     res_bind (stoi_at pd 32 16) (\<lambda>ps.
     res_bind (stoi_at pd 48 16) (\<lambda>ws.
     res_bind (cpp_substr pd 64 3) (\<lambda>pr.
     res_bind (stoi_at pd 67 16) (\<lambda>sr.
     res_bind (cpp_substr pd 83 (length pd)) (\<lambda>name.
       Inr (r\<lparr>fileSize := fs, numPackets := np, packetSize := ps, slidingWindowSize_r := ws,
              protocol := pr, seqNumRange_r := sr, outputFileName := name,
              senderFile := []\<rparr>)))))))))"

section \<open>processPacketBuffer\<close>

text \<open>
  The loop over the buffer: a head whose sequence number is greater than
  \<^verbatim>\<open>curPktNum\<close> stops it; any other head is written to the file, \<^verbatim>\<open>curPktNum\<close>
  advances and the head is erased.
\<close>

fun flush_buffer :: "packet list \<Rightarrow> int \<Rightarrow> wire \<Rightarrow> packet list \<times> int \<times> wire" where
  "flush_buffer [] cur out = ([], cur, out)"
| "flush_buffer (p # ps) cur out =
     (if cur < int (seqNum p) then (p # ps, cur, out) else flush_buffer ps (cur + 1) (out @ data p))"

definition processPacketBuffer :: "receiver \<Rightarrow> receiver" where
  "processPacketBuffer r =
     (let (b, c, out) = flush_buffer (packetBuffer r) (curPktNum r) (senderFile r)
      in r\<lparr>packetBuffer := b, curPktNum := c, senderFile := out\<rparr>)"

section \<open>sendAckMessage\<close>

text \<open>The reply: the sequence number, the receiver's range, \<open>ACK_OK\<close> or \<open>ACK_FAIL\<close>, and
  a one-byte payload \<^verbatim>\<open>vector<char>(1)\<close>, encoded with its true checksum.\<close>

definition ackPacket :: "nat \<Rightarrow> bool \<Rightarrow> receiver \<Rightarrow> packet" where
  "ackPacket sq validChecksum r =
     new_packet\<lparr>seqNum := sq, seqNumRange := seqNumRange_r r,
                ack := (if validChecksum then ACK_OK else ACK_FAIL), data := [0]\<rparr>"

definition sendAckMessage :: "nat \<Rightarrow> bool \<Rightarrow> receiver \<Rightarrow> receiver" where
  "sendAckMessage sq validChecksum r =
     r\<lparr>acksSent := acksSent r @ [createPacketString False (ackPacket sq validChecksum r)]\<rparr>"

section \<open>The socket loop of main\<close>

text \<open>
  After a new, valid data packet is recorded: the fast path puts a packet carrying the
  expected number at the front, any other is appended and the buffer sorted by sequence
  number; then the flush; then the end test and, when the last packet is next, the size
  of the last frame (\<^verbatim>\<open>fileSize % packetSize\<close>, undefined for a zero divisor).
  \<^verbatim>\<open>std::sort\<close> is not stable; the model uses the stable \<open>sort_key\<close>, which is
  the same function on buffers whose sequence numbers are distinct, as
  \<open>rcv_inv\<close> below shows they are.
\<close>

definition deliverPacket :: "packet \<Rightarrow> receiver \<Rightarrow> (receiver \<times> bool) cpp_result" where
  "deliverPacket p r =
     (let r4 = (if curPktNum r = int (seqNum p) then r\<lparr>packetBuffer := p # packetBuffer r\<rparr>
                else r\<lparr>packetBuffer := sort_key seqNum (packetBuffer r @ [p])\<rparr>);
          r5 = processPacketBuffer r4
      in if curPktNum r5 = numPackets r5 then Inr (r5, True)
         else if curPktNum r5 + 1 = numPackets r5 then
           (if packetSize r5 = 0 then Inl Undefined_Behaviour
            else let nps = fileSize r5 smod packetSize r5
                 in Inr (if 0 < nps then r5\<lparr>packetSize := nps\<rparr> else r5, False))
         else Inr (r5, False))"

text \<open>The reference for the fast path: the same step with every new packet appended and the
  buffer sorted.\<close>

definition deliverPacket_sorted :: "packet \<Rightarrow> receiver \<Rightarrow> (receiver \<times> bool) cpp_result" where
  "deliverPacket_sorted p r =
     (let r4 = r\<lparr>packetBuffer := sort_key seqNum (packetBuffer r @ [p])\<rparr>;
          r5 = processPacketBuffer r4
      in if curPktNum r5 = numPackets r5 then Inr (r5, True)
         else if curPktNum r5 + 1 = numPackets r5 then
           (if packetSize r5 = 0 then Inl Undefined_Behaviour
            else let nps = fileSize r5 smod packetSize r5
                 in Inr (if 0 < nps then r5\<lparr>packetSize := nps\<rparr> else r5, False))
         else Inr (r5, False))"

text \<open>
  A decoded packet: count it, remember its shown number, reply OK or FAIL, and stop
  there when the checksum fails or the number was accepted before.  Otherwise record the
  number; sequence number 0 is the handshake, which sets up the session and moves
  \<^verbatim>\<open>curPktNum\<close> on without a flush; any other goes to the buffer.  The result's flag
  is the \<^verbatim>\<open>break\<close> of the loop.
\<close>

definition receivePacket :: "packet \<Rightarrow> receiver \<Rightarrow> (receiver \<times> bool) cpp_result" where
  "receivePacket p r =
     (let r1 = r\<lparr>numReceived := numReceived r + 1, lastReceived := showSeqNum p\<rparr>;
          validChecksum = isValidChecksum p;
          isDuplicate = seqNum p \<in> donePackets r1;
          r2 = sendAckMessage (seqNum p) validChecksum r1
      in if \<not> validChecksum \<or> isDuplicate then Inr (r2, False)
         else
           let r3 = r2\<lparr>donePackets := insert (seqNum p) (donePackets r2),
                       lastPktNum := (if lastPktNum r2 < int (seqNum p) then int (seqNum p) else lastPktNum r2)\<rparr>
           in if seqNum p = 0 then
                res_bind (readInitialPacket (data p) r3) (\<lambda>r4. Inr (r4\<lparr>curPktNum := curPktNum r4 + 1\<rparr>, False))
              else deliverPacket p r3)"

text \<open>
  One iteration of \<^verbatim>\<open>while (1)\<close> on the string \<^verbatim>\<open>socketData\<close>: an empty string is
  the closed socket; a string starting with \<^verbatim>\<open>PING\<close> is answered with \<^verbatim>\<open>PING\<close>; any
  other is decoded (the decoder may throw) and handled by \<open>receivePacket\<close> with the
  session's sequence range.
\<close>

definition PING :: wire where
  "PING = [80, 73, 78, 71]"

definition receiver_step :: "wire \<Rightarrow> receiver \<Rightarrow> (receiver \<times> bool) cpp_result" where
  "receiver_step socketData r =
     (if socketData = [] then Inr (r, True)
      else if take 4 socketData = PING then Inr (r\<lparr>acksSent := acksSent r @ [PING]\<rparr>, False)
      else res_bind (reversePacket socketData new_packet)
             (\<lambda>p. receivePacket (p\<lparr>seqNumRange := seqNumRange_r r\<rparr>) r))"

section \<open>The port argument\<close>

text \<open>
  The checks at the start of \<^verbatim>\<open>main\<close>: exactly one argument, read as an
  \<^verbatim>\<open>int\<close> by \<^verbatim>\<open>istringstream >> int\<close> (white space skipped, sign and digits read,
  no digit or an out-of-range value failing as \<^verbatim>\<open>stoi\<close> does), and a port in
  \<open>1025 .. 65535\<close>.  Each failure prints a message and returns 1.
\<close>

datatype port_error = Usage | Invalid_Port | Port_Out_Of_Range

definition receiver_port :: "wire list \<Rightarrow> port_error + int" where
  "receiver_port argv =
     (if length argv \<noteq> 2 then Inl Usage
      else case stoi (argv ! 1) of
             Inl _ \<Rightarrow> Inl Invalid_Port
           | Inr portNum \<Rightarrow>
               if portNum < 1025 \<or> portNum > 65535 then Inl Port_Out_Of_Range else Inr portNum)"

section \<open>The reorder buffer\<close>

text \<open>
  The receiver's invariant once the handshake is done, for a file whose packet \<open>k\<close>
  carries \<open>chunk k\<close>: the expected number is at least 1; the buffer is strictly sorted by
  sequence number, holds only packets above the expected number, each with its chunk;
  the numbers accepted so far are those below the expected one and those in the buffer;
  and the file holds chunks \<open>1 .. curPktNum - 1\<close> in order.
\<close>

definition rcv_inv :: "(nat \<Rightarrow> wire) \<Rightarrow> receiver \<Rightarrow> bool" where
  "rcv_inv chunk r \<longleftrightarrow>
     1 \<le> curPktNum r \<and>
     sorted_wrt (<) (map seqNum (packetBuffer r)) \<and>
     (\<forall>p\<in>set (packetBuffer r). curPktNum r < int (seqNum p) \<and> data p = chunk (seqNum p)) \<and>
     donePackets r = {0..<nat (curPktNum r)} \<union> seqNum ` set (packetBuffer r) \<and>
     senderFile r = concat (map chunk [1..<nat (curPktNum r)])"

text \<open>The channel delivers, under a valid checksum, the chunk a data packet's number names.\<close>

definition faithful :: "(nat \<Rightarrow> wire) \<Rightarrow> packet \<Rightarrow> bool" where
  "faithful chunk p \<longleftrightarrow> (isValidChecksum p \<and> 0 < seqNum p \<longrightarrow> data p = chunk (seqNum p))"

text \<open>
  The socket loop \<^verbatim>\<open>while (1)\<close> of \<^verbatim>\<open>main\<close> on the strings successive calls of
  \<^verbatim>\<open>getFromSocket\<close> return: it ends at a \<^verbatim>\<open>break\<close> (flag \<open>True\<close>), at an exception,
  or, with the flag \<open>False\<close>, when the given strings are used up and the loop waits for
  more.
\<close>

fun receiver_loop :: "wire list \<Rightarrow> receiver \<Rightarrow> (receiver \<times> bool) cpp_result" where
  "receiver_loop [] r = Inr (r, False)"
| "receiver_loop (s # ss) r =
     res_bind (receiver_step s r) (\<lambda>(r', stop). if stop then Inr (r', True) else receiver_loop ss r')"

text \<open>
  The abstract receiver: it keeps the set of accepted sequence numbers and its output is
  the chunks up to the first number not accepted.  \<open>first_gap\<close> searches from 0 for at
  most \<open>card D\<close> steps, which reaches the first gap of a finite set.
\<close>

fun gap_from :: "nat set \<Rightarrow> nat \<Rightarrow> nat \<Rightarrow> nat" where
  "gap_from D n 0 = n"
| "gap_from D n (Suc f) = (if n \<in> D then gap_from D (Suc n) f else n)"

definition first_gap :: "nat set \<Rightarrow> nat" where
  "first_gap D = gap_from D 0 (card D)"

definition rx_spec_step :: "(nat \<Rightarrow> wire) \<Rightarrow> bool \<Rightarrow> nat \<Rightarrow> nat set \<times> wire \<Rightarrow> nat set \<times> wire" where
  "rx_spec_step chunk ok k a =
     (if ok then (insert k (fst a), concat (map chunk [1..<first_gap (insert k (fst a))])) else a)"

definition rx_abs :: "receiver \<Rightarrow> nat set \<times> wire" where
  "rx_abs r = (donePackets r, senderFile r)"

section \<open>Lemmas\<close>

declare upt.simps(2) [simp del]

text \<open>
  The flush on a strictly sorted buffer whose numbers are at least \<open>c\<close>: it writes the
  run \<open>c, c + 1, ..., c + k - 1\<close> at the front and stops before a number above \<open>c + k\<close>.
\<close>

lemma flush_buffer_run:
  assumes "sorted_wrt (<) (map seqNum B)" and "\<forall>p\<in>set B. c \<le> seqNum p \<and> data p = chunk (seqNum p)"
  shows "\<exists>k. flush_buffer B (int c) out = (drop k B, int (c + k), out @ concat (map chunk [c..<c + k])) \<and>
             map seqNum (take k B) = [c..<c + k] \<and> (\<forall>p\<in>set (drop k B). c + k < seqNum p)"
  using assms
proof (induction B arbitrary: c out)
  case Nil
  then show ?case by (intro exI[of _ 0]) simp
next
  case (Cons p B)
  show ?case
  proof (cases "int c < int (seqNum p)")
    case True
    then show ?thesis using Cons.prems by (intro exI[of _ 0]) auto
  next
    case False
    then have p: "seqNum p = c" using Cons.prems(2) by simp
    have B: "\<forall>q\<in>set B. Suc c \<le> seqNum q \<and> data q = chunk (seqNum q)"
      using Cons.prems p by auto
    have "sorted_wrt (<) (map seqNum B)" using Cons.prems(1) by simp
    from Cons.IH[OF this B, of "out @ data p"] obtain k where k:
        "flush_buffer B (int (Suc c)) (out @ data p) =
          (drop k B, int (Suc c + k), (out @ data p) @ concat (map chunk [Suc c..<Suc c + k]))"
        "map seqNum (take k B) = [Suc c..<Suc c + k]" "\<forall>q\<in>set (drop k B). Suc c + k < seqNum q"
      by blast
    have "[c..<c + Suc k] = c # [Suc c..<Suc c + k]" by (simp add: upt_conv_Cons)
    then show ?thesis using k p Cons.prems(2) False
      by (intro exI[of _ "Suc k"]) (simp add: add.commute)
  qed
qed

lemma buffer_insert:
  assumes "sorted_wrt (<) (map seqNum B)" and "\<forall>q\<in>set B. c < seqNum q"
    and "c \<le> seqNum p" and "seqNum p \<notin> seqNum ` set B"
  defines "B2 \<equiv> if c = seqNum p then p # B else sort_key seqNum (B @ [p])"
  shows "sorted_wrt (<) (map seqNum B2) \<and> set B2 = insert p (set B)"
proof (cases "c = seqNum p")
  case True
  then show ?thesis using assms by auto
next
  case False
  have "distinct (map seqNum B)" using assms(1) by (simp add: strict_sorted_iff)
  then have "distinct (map seqNum (B @ [p]))" using assms(4) by auto
  then show ?thesis using False by (simp add: B2_def strict_sorted_sort_key)
qed

text \<open>The invariant reads four fields of the state only.\<close>

lemma rcv_inv_cong:
  "curPktNum r' = curPktNum r \<Longrightarrow> packetBuffer r' = packetBuffer r \<Longrightarrow>
   donePackets r' = donePackets r \<Longrightarrow> senderFile r' = senderFile r \<Longrightarrow>
   rcv_inv chunk r' = rcv_inv chunk r"
  unfolding rcv_inv_def by (simp only:)

lemma rcv_inv_packetSize [simp]: "rcv_inv chunk (r\<lparr>packetSize := x\<rparr>) = rcv_inv chunk r"
  by (rule rcv_inv_cong) simp_all

lemma concat_chunks_append:
  "1 \<le> c \<Longrightarrow> concat (map chunk [1..<c]) @ concat (map chunk [c..<c + k]) = concat (map chunk [1..<c + k])"
  using upt_add_eq_append[of 1 c k] by simp

text \<open>The flush re-establishes the invariant on a buffer holding numbers at least \<open>c\<close>.\<close>

lemma processPacketBuffer_inv:
  assumes "1 \<le> c" and "curPktNum r = int c"
    and "sorted_wrt (<) (map seqNum (packetBuffer r))"
    and "\<forall>q\<in>set (packetBuffer r). c \<le> seqNum q \<and> data q = chunk (seqNum q)"
    and "donePackets r = {0..<c} \<union> seqNum ` set (packetBuffer r)"
    and "senderFile r = concat (map chunk [1..<c])"
  shows "rcv_inv chunk (processPacketBuffer r)"
proof -
  let ?B = "packetBuffer r"
  obtain k where k: "flush_buffer ?B (int c) (senderFile r) =
      (drop k ?B, int (c + k), senderFile r @ concat (map chunk [c..<c + k]))"
      "map seqNum (take k ?B) = [c..<c + k]" "\<forall>q\<in>set (drop k ?B). c + k < seqNum q"
    using flush_buffer_run[OF assms(3,4)] by blast
  have "seqNum ` set ?B = seqNum ` set (take k ?B) \<union> seqNum ` set (drop k ?B)"
    by (metis append_take_drop_id image_Un set_append)
  also have "seqNum ` set (take k ?B) = {c..<c + k}" by (metis k(2) list.set_map set_upt)
  finally have "donePackets r = {0..<c + k} \<union> seqNum ` set (drop k ?B)"
    using assms(5) by auto
  moreover have "sorted_wrt (<) (map seqNum (drop k ?B))"
    using assms(3) by (simp add: drop_map[symmetric])
  moreover have "\<forall>q\<in>set (drop k ?B). data q = chunk (seqNum q)"
    using assms(4) by (meson in_set_dropD)
  moreover have "senderFile r @ concat (map chunk [c..<c + k]) = concat (map chunk [1..<c + k])"
    using assms(6) concat_chunks_append[OF assms(1)] by simp
  moreover have "processPacketBuffer r =
      r\<lparr>packetBuffer := drop k ?B, curPktNum := int (c + k),
        senderFile := senderFile r @ concat (map chunk [c..<c + k])\<rparr>"
    unfolding processPacketBuffer_def assms(2) k(1) by simp
  ultimately show ?thesis using assms(1) k(3)
    by (simp add: rcv_inv_def del: of_nat_add)
qed

text \<open>A new valid data packet, recorded as accepted, keeps the invariant through the insert,
  the flush and the end-of-transfer bookkeeping.\<close>

lemma deliverPacket_inv:
  assumes inv: "rcv_inv chunk r0"
    and fields: "packetBuffer r = packetBuffer r0" "curPktNum r = curPktNum r0"
      "senderFile r = senderFile r0" "donePackets r = insert (seqNum p) (donePackets r0)"
    and new: "seqNum p \<notin> donePackets r0" and dat: "data p = chunk (seqNum p)"
    and run: "deliverPacket p r = Inr (r', stop)"
  shows "rcv_inv chunk r'"
proof -
  define c where "c = nat (curPktNum r0)"
  let ?B = "packetBuffer r0"
  have c: "1 \<le> c" "curPktNum r0 = int c" using inv by (auto simp: rcv_inv_def c_def)
  have B: "sorted_wrt (<) (map seqNum ?B)" "\<forall>q\<in>set ?B. c < seqNum q \<and> data q = chunk (seqNum q)"
      "donePackets r0 = {0..<c} \<union> seqNum ` set ?B" "senderFile r0 = concat (map chunk [1..<c])"
    using inv c(2) by (auto simp: rcv_inv_def)
  have p: "c \<le> seqNum p" "seqNum p \<notin> seqNum ` set ?B" using new B(3) by auto
  define B2 where "B2 = (if c = seqNum p then p # ?B else sort_key seqNum (?B @ [p]))"
  have B2: "sorted_wrt (<) (map seqNum B2)" "set B2 = insert p (set ?B)"
    using buffer_insert[OF B(1) _ p] B(2) unfolding B2_def by auto
  define r4 where "r4 = r\<lparr>packetBuffer := B2\<rparr>"
  have r4: "(if curPktNum r = int (seqNum p) then r\<lparr>packetBuffer := p # packetBuffer r\<rparr>
             else r\<lparr>packetBuffer := sort_key seqNum (packetBuffer r @ [p])\<rparr>) = r4"
    using fields(1,2) c(2) by (simp add: r4_def B2_def)
  have "rcv_inv chunk (processPacketBuffer r4)"
  proof (rule processPacketBuffer_inv[OF c(1)])
    show "curPktNum r4 = int c" using fields(2) c(2) by (simp add: r4_def)
    show "sorted_wrt (<) (map seqNum (packetBuffer r4))" using B2(1) by (simp add: r4_def)
    show "\<forall>q\<in>set (packetBuffer r4). c \<le> seqNum q \<and> data q = chunk (seqNum q)"
      using B2(2) B(2) p(1) dat by (auto simp: r4_def)
    show "donePackets r4 = {0..<c} \<union> seqNum ` set (packetBuffer r4)"
      using fields(4) B(3) B2(2) by (auto simp: r4_def)
    show "senderFile r4 = concat (map chunk [1..<c])" using fields(3) B(4) by (simp add: r4_def)
  qed
  then show ?thesis using run unfolding deliverPacket_def Let_def r4
    by (auto split: if_splits)
qed

lemma rcv_inv_zero_done: "rcv_inv chunk r \<Longrightarrow> 0 \<in> donePackets r"
  by (auto simp: rcv_inv_def)

lemma rcv_inv_sendAck:
  "rcv_inv chunk (sendAckMessage k v (r\<lparr>numReceived := n, lastReceived := l\<rparr>)) = rcv_inv chunk r"
  by (rule rcv_inv_cong) (simp_all add: sendAckMessage_def)

text \<open>The branches of \<open>receivePacket\<close>: a failed checksum or a duplicate only adds the
  reply and counts; a valid new packet is recorded and goes to the buffer.\<close>

lemma receivePacket_reply_only:
  "\<not> isValidChecksum p \<or> seqNum p \<in> donePackets r \<Longrightarrow>
   receivePacket p r = Inr (sendAckMessage (seqNum p) (isValidChecksum p)
                              (r\<lparr>numReceived := numReceived r + 1, lastReceived := showSeqNum p\<rparr>), False)"
  by (auto simp: receivePacket_def Let_def)

lemma receivePacket_new_data:
  assumes "isValidChecksum p" and "seqNum p \<notin> donePackets r" and "0 < seqNum p"
  shows "receivePacket p r =
           deliverPacket p ((sendAckMessage (seqNum p) True
              (r\<lparr>numReceived := numReceived r + 1, lastReceived := showSeqNum p\<rparr>))
              \<lparr>donePackets := insert (seqNum p) (donePackets r),
               lastPktNum := (if lastPktNum r < int (seqNum p) then int (seqNum p) else lastPktNum r)\<rparr>)"
  using assms by (simp add: receivePacket_def Let_def sendAckMessage_def)

lemma receivePacket_inv:
  assumes inv: "rcv_inv chunk r" and fa: "faithful chunk p"
    and run: "receivePacket p r = Inr (r', stop)"
  shows "rcv_inv chunk r'"
proof (cases "\<not> isValidChecksum p \<or> seqNum p \<in> donePackets r")
  case True
  then show ?thesis using run inv by (auto simp: receivePacket_reply_only rcv_inv_sendAck)
next
  case False
  then have "0 < seqNum p" using rcv_inv_zero_done[OF inv] by (cases "seqNum p") auto
  then show ?thesis
    using False run fa by (intro deliverPacket_inv[OF inv])
      (simp_all add: receivePacket_new_data sendAckMessage_def faithful_def)
qed

lemma faithful_seqNumRange [simp]: "faithful chunk (p\<lparr>seqNumRange := x\<rparr>) = faithful chunk p"
  by (simp add: faithful_def isValidChecksum_def)

lemma gap_from_interval:
  "{0..<c} \<subseteq> D \<Longrightarrow> c \<notin> D \<Longrightarrow> n \<le> c \<Longrightarrow> c \<le> n + f \<Longrightarrow> gap_from D n f = c"
proof (induction f arbitrary: n)
  case 0
  then show ?case by simp
next
  case (Suc f)
  show ?case
  proof (cases "n \<in> D")
    case True
    then have "n < c" using Suc.prems(2,3) by (cases "n = c") auto
    then show ?thesis using True Suc by simp
  next
    case False
    then have "n = c" using Suc.prems(1,3) by (cases "n < c") auto
    then show ?thesis using False by simp
  qed
qed

lemma first_gap_eq:
  assumes "finite D" and "{0..<c} \<subseteq> D" and "c \<notin> D"
  shows "first_gap D = c"
proof -
  have "c \<le> card D" using card_mono[OF assms(1,2)] by simp
  then show ?thesis unfolding first_gap_def using assms(2,3) by (rule_tac gap_from_interval) simp_all
qed

lemma rcv_inv_first_gap: "rcv_inv chunk r \<Longrightarrow> first_gap (donePackets r) = nat (curPktNum r)"
  by (rule first_gap_eq) (auto simp: rcv_inv_def)

lemma processPacketBuffer_done [simp]: "donePackets (processPacketBuffer r) = donePackets r"
  by (simp add: processPacketBuffer_def split: prod.splits)

lemma deliverPacket_done: "deliverPacket p r = Inr (r', b) \<Longrightarrow> donePackets r' = donePackets r"
  by (auto simp: deliverPacket_def Let_def split: if_splits)

lemma receivePacket_done_valid:
  assumes "rcv_inv chunk r" and "isValidChecksum p" and "receivePacket p r = Inr (r', b)"
  shows "donePackets r' = insert (seqNum p) (donePackets r)"
proof (cases "seqNum p \<in> donePackets r")
  case True
  then show ?thesis using assms(3) by (auto simp: receivePacket_reply_only sendAckMessage_def)
next
  case False
  then have "0 < seqNum p" using rcv_inv_zero_done[OF assms(1)] by (cases "seqNum p") auto
  then show ?thesis using False assms(2,3) deliverPacket_done
    by (fastforce simp: receivePacket_new_data sendAckMessage_def)
qed

lemma readInitialPacket_fields:
  "readInitialPacket d r = Inr r' \<Longrightarrow>
   packetBuffer r' = packetBuffer r \<and> curPktNum r' = curPktNum r \<and>
   donePackets r' = donePackets r \<and> senderFile r' = []"
  by (auto simp: readInitialPacket_def res_bind_eq_Inr)

text \<open>A frame of the packet encoder never looks like a \<^verbatim>\<open>PING\<close>: it starts with binary digits.\<close>

lemma createPacketString_not_PING: "take 4 (createPacketString f p) \<noteq> PING"
proof
  assume a: "take 4 (createPacketString f p) = PING"
  have "take 4 (createPacketString f p) = take 4 (bitstr 32 (seqNum p))"
    by (simp add: createPacketString_def)
  then have "80 \<in> set (bitstr 32 (seqNum p))"
    using a by (metis PING_def in_set_takeD list.set_intros(1))
  then show False using is_bin_bitstr[of 32 "seqNum p"] by (auto simp: is_bin_def list_all_iff)
qed

text \<open>The receiver loop on an encoder frame handles the decoded packet.\<close>

lemma receiver_step_frame:
  "receiver_step (createPacketString f p) r =
     receivePacket (new_packet\<lparr>seqNum := seqNum p mod 2 ^ 32, ack := ack p mod 4,
                      checksum := (if f then 0 else int (unat (createChecksum (data p)))),
                      data := data p, seqNumRange := seqNumRange_r r\<rparr>) r"
proof -
  have "length (createPacketString f p) \<noteq> 0" by (simp add: createPacketString_def)
  then show ?thesis
    by (simp del: length_0_conv add: receiver_step_def createPacketString_not_PING reversePacket_createPacketString)
qed

lemma receivePacket_handshake:
  assumes "isValidChecksum p" and "seqNum p \<notin> donePackets r" and "seqNum p = 0"
  shows "receivePacket p r =
           res_bind (readInitialPacket (data p)
              ((sendAckMessage 0 True
                 (r\<lparr>numReceived := numReceived r + 1, lastReceived := showSeqNum p\<rparr>))
                 \<lparr>donePackets := insert 0 (donePackets r),
                  lastPktNum := (if lastPktNum r < 0 then 0 else lastPktNum r)\<rparr>))
            (\<lambda>r4. Inr (r4\<lparr>curPktNum := curPktNum r4 + 1\<rparr>, False))"
  using assms by (simp add: receivePacket_def Let_def sendAckMessage_def)

text \<open>A packet with a valid checksum is recorded as accepted, whichever branch it takes.\<close>

lemma receivePacket_records:
  assumes "isValidChecksum p" and "receivePacket p r = Inr (r', b)"
  shows "seqNum p \<in> donePackets r'"
proof (cases "seqNum p \<in> donePackets r")
  case True
  then show ?thesis using assms(2) by (auto simp: receivePacket_reply_only sendAckMessage_def)
next
  case False
  show ?thesis
  proof (cases "seqNum p = 0")
    case True
    then show ?thesis using False assms
      by (auto simp: receivePacket_handshake res_bind_eq_Inr sendAckMessage_def dest!: readInitialPacket_fields)
  next
    case z: False
    then show ?thesis using False assms deliverPacket_done
      by (fastforce simp: receivePacket_new_data sendAckMessage_def)
  qed
qed

lemma receivePacket_handshake_Inr:
  assumes "isValidChecksum p" and "seqNum p \<notin> donePackets r" and "seqNum p = 0"
    and "receivePacket p r = Inr (r', stop)"
  shows "\<not> stop \<and> packetBuffer r' = packetBuffer r \<and> curPktNum r' = curPktNum r + 1 \<and>
         donePackets r' = insert 0 (donePackets r) \<and> senderFile r' = []"
  using assms(4) unfolding receivePacket_handshake[OF assms(1-3)]
  by (auto simp: res_bind_eq_Inr sendAckMessage_def dest!: readInitialPacket_fields)

lemma receiver_step_keeps_inv:
  assumes inv: "rcv_inv chunk r"
    and fa: "\<forall>p. reversePacket socketData new_packet = Inr p \<longrightarrow> faithful chunk p"
    and run: "receiver_step socketData r = Inr (r', stop)"
  shows "rcv_inv chunk r'"
proof (cases "socketData = [] \<or> take 4 socketData = PING")
  case True
  then have "receiver_step socketData r =
      (if socketData = [] then Inr (r, True) else Inr (r\<lparr>acksSent := acksSent r @ [PING]\<rparr>, False))"
    unfolding receiver_step_def by auto
  then have "r' = r \<or> r' = r\<lparr>acksSent := acksSent r @ [PING]\<rparr>"
    using run by (simp split: if_splits)
  then show ?thesis using inv rcv_inv_cong[of "r\<lparr>acksSent := acksSent r @ [PING]\<rparr>" r] by auto
next
  case False
  then have "res_bind (reversePacket socketData new_packet)
      (\<lambda>p. receivePacket (p\<lparr>seqNumRange := seqNumRange_r r\<rparr>) r) = Inr (r', stop)"
    using run unfolding receiver_step_def by simp
  then obtain p where "reversePacket socketData new_packet = Inr p"
      "receivePacket (p\<lparr>seqNumRange := seqNumRange_r r\<rparr>) r = Inr (r', stop)"
    unfolding res_bind_eq_Inr by blast
  then show ?thesis
    using inv fa receivePacket_inv[OF inv, of "p\<lparr>seqNumRange := seqNumRange_r r\<rparr>"] by simp
qed

lemma deliverPacket_stop:
  "deliverPacket p r = Inr (r', stop) \<Longrightarrow>
   numPackets r' = numPackets r \<and> (stop \<longrightarrow> curPktNum r' = numPackets r')"
  by (auto simp: deliverPacket_def Let_def processPacketBuffer_def split: if_splits prod.splits)

lemma receivePacket_stop:
  assumes inv: "rcv_inv chunk r" and run: "receivePacket p r = Inr (r', stop)"
  shows "numPackets r' = numPackets r \<and> (stop \<longrightarrow> curPktNum r' = numPackets r')"
proof (cases "\<not> isValidChecksum p \<or> seqNum p \<in> donePackets r")
  case True
  then show ?thesis using run by (auto simp: receivePacket_reply_only sendAckMessage_def)
next
  case False
  then have "0 < seqNum p" using rcv_inv_zero_done[OF inv] by (cases "seqNum p") auto
  then show ?thesis using False run deliverPacket_stop
    by (fastforce simp: receivePacket_new_data sendAckMessage_def)
qed

lemma receiver_step_stop:
  assumes inv: "rcv_inv chunk r" and ne: "socketData \<noteq> []"
    and run: "receiver_step socketData r = Inr (r', stop)"
  shows "numPackets r' = numPackets r \<and> (stop \<longrightarrow> curPktNum r' = numPackets r')"
proof (cases "take 4 socketData = PING")
  case True
  then show ?thesis using ne run by (auto simp: receiver_step_def)
next
  case False
  then obtain p where "receivePacket (p\<lparr>seqNumRange := seqNumRange_r r\<rparr>) r = Inr (r', stop)"
    using ne run unfolding receiver_step_def by (auto simp: res_bind_eq_Inr)
  then show ?thesis using receivePacket_stop[OF inv] by blast
qed

text \<open>The loop over strings that are non-empty and decode to faithful packets keeps the
  invariant and the packet count, and stops only with the last packet delivered.\<close>

lemma receiver_loop_inv:
  assumes "rcv_inv chunk r"
    and "\<forall>f\<in>set frames. f \<noteq> [] \<and> (\<forall>p. reversePacket f new_packet = Inr p \<longrightarrow> faithful chunk p)"
    and "receiver_loop frames r = Inr (r', stop)"
  shows "rcv_inv chunk r' \<and> numPackets r' = numPackets r \<and> (stop \<longrightarrow> curPktNum r' = numPackets r')"
  using assms
proof (induction frames arbitrary: r)
  case (Cons f fs)
  obtain r1 b where st: "receiver_step f r = Inr (r1, b)"
    and rest: "(if b then Inr (r1, True) else receiver_loop fs r1) = Inr (r', stop)"
    using Cons.prems(3) by (auto simp: res_bind_eq_Inr split: prod.splits)
  have i1: "rcv_inv chunk r1" using receiver_step_keeps_inv[OF Cons.prems(1) _ st] Cons.prems(2) by simp
  have s1: "numPackets r1 = numPackets r \<and> (b \<longrightarrow> curPktNum r1 = numPackets r1)"
    using receiver_step_stop[OF Cons.prems(1) _ st] Cons.prems(2) by simp
  show ?case
  proof (cases b)
    case True
    then show ?thesis using rest i1 s1 by simp
  next
    case False
    then show ?thesis using Cons.IH[OF i1 _ ] Cons.prems(2) rest s1 by simp
  qed
qed simp


lemma processPacketBuffer_fields [simp]:
  "numPackets (processPacketBuffer r) = numPackets r"
  "packetSize (processPacketBuffer r) = packetSize r"
  "acksSent (processPacketBuffer r) = acksSent r"
  by (simp_all add: processPacketBuffer_def split: prod.splits)

text \<open>With a non-zero packet size the delivery step never fails; it stops exactly when the
  expected number reaches the packet count, and keeps the count and the replies.\<close>

lemma deliverPacket_result:
  assumes "packetSize r \<noteq> 0"
  shows "\<exists>r' b. deliverPacket p r = Inr (r', b) \<and> (b \<longleftrightarrow> curPktNum r' = numPackets r') \<and>
           numPackets r' = numPackets r \<and> packetSize r' \<noteq> 0 \<and> acksSent r' = acksSent r"
  using assms by (auto simp: deliverPacket_def Let_def)

text \<open>Under the invariant the expected number is the least number not accepted; when the
  accepted numbers are all of \<open>0 .. N\<close>, it is \<open>N + 1\<close> and the buffer is empty.\<close>

lemma rcv_inv_cur_le: "rcv_inv chunk r \<Longrightarrow> j \<notin> donePackets r \<Longrightarrow> nat (curPktNum r) \<le> j"
  by (auto simp: rcv_inv_def)

lemma rcv_inv_complete:
  assumes "rcv_inv chunk r" and "donePackets r = {0..N}"
  shows "curPktNum r = int N + 1 \<and> packetBuffer r = []"
proof -
  let ?c = "nat (curPktNum r)"
  have d: "donePackets r = {0..<?c} \<union> seqNum ` set (packetBuffer r)"
    and c: "1 \<le> curPktNum r" and b: "\<forall>q\<in>set (packetBuffer r). curPktNum r < int (seqNum q)"
    using assms(1) by (auto simp: rcv_inv_def)
  have "?c \<notin> donePackets r" using d b c by force
  then have "N < ?c" using assms(2) by simp
  moreover have "?c - 1 \<in> donePackets r" using d c by auto
  then have "?c - 1 \<le> N" using assms(2) by simp
  ultimately have cN: "?c = N + 1" by linarith
  have "packetBuffer r = []"
  proof (rule ccontr)
    assume "packetBuffer r \<noteq> []"
    then obtain q where "q \<in> set (packetBuffer r)" by (cases "packetBuffer r") auto
    then have "seqNum q \<in> donePackets r" "curPktNum r < int (seqNum q)" using d b by auto
    then show False using cN assms(2) c by simp
  qed
  then show ?thesis using cN c by simp
qed

text \<open>The loop's step on the frame of a new data packet: it is accepted, replied to and
  delivered, and the invariant holds after it.\<close>

lemma receiver_step_data:
  assumes inv: "rcv_inv chunk r" and k: "0 < k" "k < 2 ^ 32" "k \<notin> donePackets r"
    and ps: "packetSize r \<noteq> 0"
  shows "\<exists>r' b. receiver_step (createPacketString False (new_packet\<lparr>seqNum := k, data := chunk k\<rparr>)) r =
             Inr (r', b) \<and> rcv_inv chunk r' \<and> donePackets r' = insert k (donePackets r) \<and>
           (b \<longleftrightarrow> curPktNum r' = numPackets r') \<and> numPackets r' = numPackets r \<and>
           packetSize r' \<noteq> 0 \<and> length (acksSent r') = Suc (length (acksSent r))"
proof -
  obtain q where q: "receiver_step (createPacketString False (new_packet\<lparr>seqNum := k, data := chunk k\<rparr>)) r =
      receivePacket q r" "isValidChecksum q" "seqNum q = k" "data q = chunk k"
    by (rule that, rule receiver_step_frame) (use k(2) in \<open>simp_all add: isValidChecksum_def\<close>)
  obtain r3 where r3: "receivePacket q r = deliverPacket q r3" "packetBuffer r3 = packetBuffer r"
      "curPktNum r3 = curPktNum r" "senderFile r3 = senderFile r"
      "donePackets r3 = insert (seqNum q) (donePackets r)" "packetSize r3 = packetSize r"
      "numPackets r3 = numPackets r" "length (acksSent r3) = Suc (length (acksSent r))"
    by (rule that, rule receivePacket_new_data) (use q k in \<open>simp_all add: sendAckMessage_def\<close>)
  obtain r' b where d: "deliverPacket q r3 = Inr (r', b)" "b \<longleftrightarrow> curPktNum r' = numPackets r'"
      "numPackets r' = numPackets r3" "packetSize r' \<noteq> 0" "acksSent r' = acksSent r3"
    using deliverPacket_result[of r3 q] ps r3(6) by auto
  have "rcv_inv chunk r'"
    using deliverPacket_inv[OF inv r3(2-5) _ _ d(1)] q k(3) by simp
  then show ?thesis using q(1,3) r3 d deliverPacket_done[OF d(1)] by simp
qed


lemmas receiver_eval = receiver_step_frame init_receiver_def sendAckMessage_def new_packet_def
  isValidChecksum_def deliverPacket_def processPacketBuffer_def

section \<open>Properties\<close>


text \<open>C4: Reorder-buffer invariant: every string the receiver loop handles keeps the
  invariant, provided every packet the string decodes to is faithful (valid checksum and
  positive number imply the right chunk): the buffer stays strictly sorted, above the
  expected number, the accepted set is the delivered prefix plus the buffer, and the file
  is the chunks before the expected number, in order.\<close>

theorem receiver_step_inv:
  assumes inv: "rcv_inv chunk r"
    and fa: "\<forall>p. reversePacket socketData new_packet = Inr p \<longrightarrow> faithful chunk p"
    and run: "receiver_step socketData r = Inr (r', stop)"
  shows "rcv_inv chunk r'"
  using receiver_step_keeps_inv[OF inv fa run] .

lemma receiver_step_inv_witness:
  "\<exists>r' stop. receiver_step (createPacketString False (new_packet\<lparr>seqNum := 2, data := [66]\<rparr>))
                 (init_receiver\<lparr>curPktNum := 2, donePackets := {0, 1, 3}, senderFile := [65],
                    numPackets := 5, packetSize := 1,
                    packetBuffer := [new_packet\<lparr>seqNum := 3, data := [67]\<rparr>]\<rparr>) = Inr (r', stop) \<and>
     rcv_inv (\<lambda>k. [of_nat (64 + k)]) r' \<and> senderFile r' = [65, 66, 67]"
proof -
  let ?r = "init_receiver\<lparr>curPktNum := 2, donePackets := {0, 1, 3}, senderFile := [65],
                    numPackets := 5, packetSize := 1,
                    packetBuffer := [new_packet\<lparr>seqNum := 3, data := [67]\<rparr>]\<rparr>"
  let ?s = "createPacketString False (new_packet\<lparr>seqNum := 2, data := [66]\<rparr>)"
  have inv: "rcv_inv (\<lambda>k. [of_nat (64 + k)]) ?r"
    by (simp add: rcv_inv_def init_receiver_def new_packet_def insert_commute upt_rec
        numeral_2_eq_2 atLeast0_lessThan_Suc)
  have fa: "\<forall>p. reversePacket ?s new_packet = Inr p \<longrightarrow> faithful (\<lambda>k. [of_nat (64 + k)]) p"
    by (simp add: reversePacket_createPacketString faithful_def new_packet_def)
  have "\<exists>r' stop. receiver_step ?s ?r = Inr (r', stop) \<and> senderFile r' = [65, 66, 67]"
    apply (simp add: receiver_step_frame receivePacket_new_data init_receiver_def sendAckMessage_def
        new_packet_def isValidChecksum_def)
    apply (simp add: deliverPacket_def processPacketBuffer_def)
    apply (simp add: Let_def ex_bool_eq)
    done
  then show ?thesis using receiver_step_inv[OF inv fa] by blast
qed

text \<open>C15: The handshake establishes the invariant: a valid sequence-0 packet that the
  fresh receiver accepts leaves it expecting packet 1, with an empty buffer and file.\<close>

theorem handshake_establishes_inv:
  assumes "isValidChecksum p" and "seqNum p = 0"
    and "receivePacket p init_receiver = Inr (r', stop)"
  shows "rcv_inv chunk r' \<and> curPktNum r' = 1 \<and> \<not> stop"
  using receivePacket_handshake_Inr[OF assms(1) _ assms(2,3)]
  by (simp add: rcv_inv_def init_receiver_def)

lemma handshake_establishes_inv_witness:
  "\<exists>r' stop. receivePacket (new_packet\<lparr>data := replicate 83 48 @ [0],
               checksum := int (unat (createChecksum (replicate 83 48 @ [0])))\<rparr>) init_receiver = Inr (r', stop) \<and>
     rcv_inv (\<lambda>k. [of_nat (64 + k)]) r' \<and> curPktNum r' = 1"
proof -
  let ?p = "new_packet\<lparr>data := replicate 83 48 @ [0],
               checksum := int (unat (createChecksum (replicate 83 48 @ [0])))\<rparr>"
  have v: "isValidChecksum ?p" "seqNum ?p = 0" by (simp_all add: isValidChecksum_def new_packet_def)
  have "takeWhile (\<lambda>c. c \<noteq> 0) (replicate 83 48 @ [0 :: byte]) =
      replicate 83 48 @ takeWhile (\<lambda>c. c \<noteq> 0) [0 :: byte]"
    by (rule takeWhile_append2) auto
  then have tw: "takeWhile (\<lambda>c. c \<noteq> 0) (replicate 83 48 @ [0 :: byte]) = replicate 83 48" by simp
  have "\<exists>r' stop. receivePacket ?p init_receiver = Inr (r', stop)"
    apply (subst receivePacket_handshake[OF v(1) _ v(2)])
     apply (simp add: init_receiver_def new_packet_def)
    apply (simp add: init_receiver_def sendAckMessage_def)
    apply (simp add: readInitialPacket_def c_str_def stoi_at_def cpp_substr_def new_packet_def
        tw stoi_zeros ex_bool_eq)
    done
  then show ?thesis using handshake_establishes_inv[OF v] by blast
qed

text \<open>C5: Refinement: the receiver implements the abstract receiver.  On every decoded
  packet, its accepted set and its file change as the abstract step says: a valid packet's
  number joins the set and the file becomes the chunks up to the first gap of the set; a
  packet with a failed checksum changes neither.\<close>

theorem receivePacket_refines:
  assumes inv: "rcv_inv chunk r" and fa: "faithful chunk p"
    and run: "receivePacket p r = Inr (r', stop)"
  shows "rx_abs r' = rx_spec_step chunk (isValidChecksum p) (seqNum p) (rx_abs r)"
proof (cases "isValidChecksum p")
  case True
  have inv': "rcv_inv chunk r'" using receivePacket_inv[OF inv fa run] .
  have "donePackets r' = insert (seqNum p) (donePackets r)"
    using receivePacket_done_valid[OF inv True run] .
  moreover have "senderFile r' = concat (map chunk [1..<first_gap (donePackets r')])"
    using inv' by (simp add: rcv_inv_first_gap) (simp add: rcv_inv_def)
  ultimately show ?thesis using True by (simp add: rx_abs_def rx_spec_step_def)
next
  case False
  then show ?thesis using run
    by (auto simp: receivePacket_reply_only rx_abs_def rx_spec_step_def sendAckMessage_def)
qed

lemma receivePacket_refines_witness:
  "rx_abs (init_receiver\<lparr>curPktNum := 4, donePackets := {0, 1, 2, 3}, senderFile := [65, 66, 67],
                         numPackets := 5, packetSize := 1, numReceived := 4\<rparr>) =
     ({0, 1, 2, 3}, [65, 66, 67]) \<and>
   (\<exists>r' stop. receivePacket (new_packet\<lparr>seqNum := 4, data := [68], checksum := int (unat (createChecksum [68]))\<rparr>)
       (init_receiver\<lparr>curPktNum := 4, donePackets := {0, 1, 2, 3}, senderFile := [65, 66, 67],
                     numPackets := 5, packetSize := 1, numReceived := 4\<rparr>) = Inr (r', stop) \<and>
     rx_abs r' = rx_spec_step (\<lambda>k. [of_nat (64 + k)]) True 4 ({0, 1, 2, 3}, [65, 66, 67]))"
proof -
  let ?r = "init_receiver\<lparr>curPktNum := 4, donePackets := {0, 1, 2, 3}, senderFile := [65, 66, 67],
                     numPackets := 5, packetSize := 1, numReceived := 4\<rparr>"
  let ?p = "new_packet\<lparr>seqNum := 4, data := [68], checksum := int (unat (createChecksum [68]))\<rparr>"
  have inv: "rcv_inv (\<lambda>k. [of_nat (64 + k)]) ?r"
    by (simp add: rcv_inv_def init_receiver_def upt_rec atLeast0_lessThan_Suc numeral_eq_Suc insert_commute)
  have v: "isValidChecksum ?p" "seqNum ?p = 4" by (simp_all add: isValidChecksum_def new_packet_def)
  have fa: "faithful (\<lambda>k. [of_nat (64 + k)]) ?p" by (simp add: faithful_def new_packet_def)
  have ab: "rx_abs ?r = ({0, 1, 2, 3}, [65, 66, 67])" by (simp add: rx_abs_def init_receiver_def)
  have n: "seqNum ?p \<notin> donePackets ?r" "0 < seqNum ?p" by (simp_all add: v(2) init_receiver_def)
  have "\<exists>r' stop. receivePacket ?p ?r = Inr (r', stop)"
    apply (subst receivePacket_new_data[OF v(1) n])
    apply (simp add: init_receiver_def sendAckMessage_def new_packet_def)
    apply (simp add: deliverPacket_def processPacketBuffer_def)
    apply (simp add: Let_def ex_bool_eq)
    done
  then show ?thesis using receivePacket_refines[OF inv fa] ab v by auto
qed

text \<open>C16: Fast path equivalence: on a buffer that is strictly sorted and holds only numbers
  above the expected one (as \<open>rcv_inv\<close> keeps it), \<open>deliverPacket\<close>, which puts a packet
  carrying the expected number at the front, behaves exactly as the reference step that
  appends every packet and sorts the buffer.\<close>

theorem fast_path_eq:
  assumes "sorted_wrt (<) (map seqNum (packetBuffer r))"
    and "\<forall>q\<in>set (packetBuffer r). curPktNum r < int (seqNum q)"
  shows "deliverPacket p r = deliverPacket_sorted p r"
proof (cases "curPktNum r = int (seqNum p)")
  case True
  then have "sort_key seqNum (packetBuffer r @ [p]) = p # packetBuffer r"
    using assms by (intro sort_key_snoc_least) auto
  then show ?thesis using True by (simp add: deliverPacket_def deliverPacket_sorted_def)
qed (simp add: deliverPacket_def deliverPacket_sorted_def)

lemma fast_path_eq_witness:
  "deliverPacket (new_packet\<lparr>seqNum := 2\<rparr>)
     (init_receiver\<lparr>curPktNum := 2, numPackets := 6, packetSize := 1,
        packetBuffer := [new_packet\<lparr>seqNum := 3\<rparr>, new_packet\<lparr>seqNum := 5\<rparr>]\<rparr>) =
   deliverPacket_sorted (new_packet\<lparr>seqNum := 2\<rparr>)
     (init_receiver\<lparr>curPktNum := 2, numPackets := 6, packetSize := 1,
        packetBuffer := [new_packet\<lparr>seqNum := 3\<rparr>, new_packet\<lparr>seqNum := 5\<rparr>]\<rparr>)"
  using fast_path_eq[of "init_receiver\<lparr>curPktNum := 2, numPackets := 6, packetSize := 1,
        packetBuffer := [new_packet\<lparr>seqNum := 3\<rparr>, new_packet\<lparr>seqNum := 5\<rparr>]\<rparr>" "new_packet\<lparr>seqNum := 2\<rparr>"]
  by (simp add: init_receiver_def new_packet_def)

text \<open>C13: In-order delivery from any arrival order: from a state satisfying the invariant,
  with \<open>N\<close> data packets and a non-zero packet size, when the frames of the missing packets
  \<open>1 .. N\<close> arrive once each, in any order, the loop ends because the expected number
  reached the packet count, the file holds chunks \<open>1 .. N\<close> in order, the buffer is
  empty and one reply was sent per frame.\<close>

theorem any_order_delivery:
  assumes "rcv_inv chunk r" and "numPackets r = int N + 1" and "packetSize r \<noteq> 0" and "N < 2 ^ 32"
    and "distinct ks" and "set ks \<inter> donePackets r = {}" and "donePackets r \<union> set ks = {0..N}"
    and "ks \<noteq> []"
  shows "\<exists>r'. receiver_loop (map (\<lambda>k. createPacketString False (new_packet\<lparr>seqNum := k, data := chunk k\<rparr>)) ks) r =
                Inr (r', True) \<and> senderFile r' = concat (map chunk [1..<N + 1]) \<and>
              packetBuffer r' = [] \<and> length (acksSent r') = length (acksSent r) + length ks"
  using assms
proof (induction ks arbitrary: r)
  case (Cons k ks)
  have "k \<noteq> 0" using Cons.prems(6) rcv_inv_zero_done[OF Cons.prems(1)] by auto
  moreover have "k \<le> N" using Cons.prems(7) by auto
  ultimately have k: "0 < k" "k < 2 ^ 32" "k \<notin> donePackets r" using Cons.prems(4,6) by auto
  obtain r1 b where s: "receiver_step (createPacketString False (new_packet\<lparr>seqNum := k, data := chunk k\<rparr>)) r =
        Inr (r1, b)" "rcv_inv chunk r1" "donePackets r1 = insert k (donePackets r)"
      "b \<longleftrightarrow> curPktNum r1 = numPackets r1" "numPackets r1 = numPackets r" "packetSize r1 \<noteq> 0"
      "length (acksSent r1) = Suc (length (acksSent r))"
    using receiver_step_data[OF Cons.prems(1) k Cons.prems(3)] by blast
  have d1: "distinct ks" "set ks \<inter> donePackets r1 = {}" "donePackets r1 \<union> set ks = {0..N}"
    using Cons.prems(5-7) s(3) by auto
  have c1: "1 \<le> curPktNum r1" using s(2) by (simp add: rcv_inv_def)
  show ?case
  proof (cases "ks = []")
    case True
    then have "curPktNum r1 = int N + 1 \<and> packetBuffer r1 = []"
      using rcv_inv_complete[OF s(2)] d1(3) by simp
    moreover have "senderFile r1 = concat (map chunk [1..<nat (curPktNum r1)])"
      using s(2) by (simp add: rcv_inv_def)
    moreover have "nat (int N + 1) = Suc N" by arith
    ultimately show ?thesis using True s Cons.prems(2) by simp
  next
    case False
    then obtain j where "j \<in> set ks" by (cases ks) auto
    then have "nat (curPktNum r1) \<le> j" "j \<le> N" using rcv_inv_cur_le[OF s(2)] d1 by auto
    then have "\<not> b" using s(4,5) Cons.prems(2) c1 by linarith
    then show ?thesis using Cons.IH[OF s(2) _ s(6) Cons.prems(4) d1 False] s(1,5,7) Cons.prems(2) by simp
  qed
qed simp

lemma any_order_delivery_witness:
  "\<exists>r'. receiver_loop (map (\<lambda>k. createPacketString False (new_packet\<lparr>seqNum := k, data := [of_nat (64 + k)]\<rparr>))
          [1, 3, 2, 4])
          (init_receiver\<lparr>curPktNum := 1, donePackets := {0}, numPackets := 5, packetSize := 1, fileSize := 4\<rparr>) =
        Inr (r', True) \<and> senderFile r' = [65, 66, 67, 68] \<and> packetBuffer r' = [] \<and> length (acksSent r') = 4"
proof -
  let ?r = "init_receiver\<lparr>curPktNum := 1, donePackets := {0}, numPackets := 5, packetSize := 1, fileSize := 4\<rparr>"
  have inv: "rcv_inv (\<lambda>k. [of_nat (64 + k)]) ?r" by (simp add: rcv_inv_def init_receiver_def)
  have c: "concat (map (\<lambda>k. [of_nat (64 + k)]) [1..<4 + 1]) = ([65, 66, 67, 68] :: wire)"
    by (simp add: upt_rec)
  have l: "length (acksSent ?r) + length [1, 3, 2, 4::nat] = 4" by (simp add: init_receiver_def)
  have "numPackets ?r = int 4 + 1" "packetSize ?r \<noteq> 0" "(4::nat) < 2 ^ 32" "distinct [1, 3, 2, 4::nat]"
    "set [1, 3, 2, 4] \<inter> donePackets ?r = {}" "donePackets ?r \<union> set [1, 3, 2, 4] = {0..4}"
    "[1, 3, 2, 4::nat] \<noteq> []"
    by (auto simp: init_receiver_def)
  from any_order_delivery[OF inv this] show ?thesis unfolding c l .
qed

text \<open>C14: Duplicate suppression: once a packet with a valid checksum has been handled,
  receiving it again changes nothing but the counters and one more reply, an ACK_OK for
  its number; the file, the buffer and the accepted set stay as they were.\<close>

theorem duplicate_suppressed:
  assumes "isValidChecksum p" and "receivePacket p r = Inr (r1, stop)"
  shows "receivePacket p r1 =
           Inr (sendAckMessage (seqNum p) True
                  (r1\<lparr>numReceived := numReceived r1 + 1, lastReceived := showSeqNum p\<rparr>), False)"
  using receivePacket_reply_only[of p r1] receivePacket_records[OF assms] assms(1) by simp

lemma duplicate_suppressed_witness:
  "let r1 = init_receiver\<lparr>curPktNum := 1, donePackets := {0}, numPackets := 5, packetSize := 1\<rparr>;
       p = new_packet\<lparr>seqNum := 1, data := [65], checksum := int (unat (createChecksum [65]))\<rparr>
   in \<exists>r2 r3. receivePacket p r1 = Inr (r2, False) \<and> receivePacket p r2 = Inr (r3, False) \<and>
        senderFile r2 = [65] \<and> senderFile r3 = [65] \<and> length (acksSent r3) = 2"
proof -
  let ?r1 = "init_receiver\<lparr>curPktNum := 1, donePackets := {0}, numPackets := 5, packetSize := 1\<rparr>"
  let ?p = "new_packet\<lparr>seqNum := 1, data := [65], checksum := int (unat (createChecksum [65]))\<rparr>"
  have v: "isValidChecksum ?p" by (simp add: isValidChecksum_def new_packet_def)
  have n: "seqNum ?p \<notin> donePackets ?r1" "0 < seqNum ?p" by (simp_all add: init_receiver_def new_packet_def)
  obtain r2 where r2: "receivePacket ?p ?r1 = Inr (r2, False)" "senderFile r2 = [65]" "length (acksSent r2) = 1"
    apply (atomize_elim)
    apply (subst receivePacket_new_data[OF v n])
    apply (simp add: init_receiver_def sendAckMessage_def new_packet_def deliverPacket_def
        processPacketBuffer_def Let_def)
    done
  show ?thesis using duplicate_suppressed[OF v r2(1)] r2 by (simp add: sendAckMessage_def Let_def)
qed

text \<open>C22: Checksum failure: a packet whose checksum does not match is answered with a reply
  that decodes to ACK_FAIL for its number, and is otherwise dropped: the buffer, the
  accepted set, the expected number and the file are unchanged and the loop goes on.\<close>

theorem bad_checksum_nack:
  assumes "\<not> isValidChecksum p" and "receivePacket p r = Inr (r', stop)"
  shows "\<not> stop \<and> packetBuffer r' = packetBuffer r \<and> donePackets r' = donePackets r \<and>
         curPktNum r' = curPktNum r \<and> senderFile r' = senderFile r \<and>
         (\<exists>q. reversePacket (last (acksSent r')) new_packet = Inr q \<and>
              seqNum q = seqNum p mod 2 ^ 32 \<and> ack q = ACK_FAIL)"
  using assms receivePacket_reply_only[of p r]
  by (auto simp: sendAckMessage_def reversePacket_createPacketString ackPacket_def ACK_FAIL_def)

lemma bad_checksum_nack_witness:
  "\<exists>r'. receivePacket (new_packet\<lparr>seqNum := 1, data := [65], checksum := 0\<rparr>) init_receiver = Inr (r', False) \<and>
        acksSent r' = [createPacketString False (new_packet\<lparr>seqNum := 1, ack := ACK_FAIL, data := [0]\<rparr>)]"
proof -
  have nv: "\<not> isValidChecksum (new_packet\<lparr>seqNum := 1, data := [65], checksum := 0\<rparr>)"
    by (simp add: isValidChecksum_def new_packet_def createChecksum_ones_sum ones_sum_def oc_norm_def
        unat_widen)
  obtain r' stop where r': "receivePacket (new_packet\<lparr>seqNum := 1, data := [65], checksum := 0\<rparr>) init_receiver = Inr (r', stop)"
    using receivePacket_reply_only[of "new_packet\<lparr>seqNum := 1, data := [65], checksum := 0\<rparr>" init_receiver] nv
    by auto
  have "\<not> stop" using bad_checksum_nack[OF nv r'] by simp
  then show ?thesis using r' nv receivePacket_reply_only[of "new_packet\<lparr>seqNum := 1, data := [65], checksum := 0\<rparr>" init_receiver]
    by (simp add: sendAckMessage_def ackPacket_def init_receiver_def new_packet_def)
qed

text \<open>C24: A handshake that fails its checksum is never recovered: the fresh receiver only
  replies to it, and the first valid data packet that follows ends the socket loop at once
  (the expected number 0 equals the packet count 0 no handshake has set), with the file
  never opened and nothing written.\<close>

theorem nacked_handshake_ends_session:
  assumes "\<not> isValidChecksum h" and "receivePacket h init_receiver = Inr (r1, b1)"
    and "isValidChecksum p" and "0 < seqNum p" and "receivePacket p r1 = Inr (r2, b2)"
  shows "b2 \<and> senderFile r2 = [] \<and> curPktNum r2 = 0 \<and> outputFileName r2 = []"
proof -
  have r1: "packetBuffer r1 = [] \<and> curPktNum r1 = 0 \<and> numPackets r1 = 0 \<and> donePackets r1 = {} \<and>
            senderFile r1 = [] \<and> outputFileName r1 = []"
    using assms(1,2) receivePacket_reply_only[of h init_receiver]
    by (auto simp: sendAckMessage_def init_receiver_def)
  then have "seqNum p \<notin> donePackets r1" by simp
  then have "deliverPacket p ((sendAckMessage (seqNum p) True
              (r1\<lparr>numReceived := numReceived r1 + 1, lastReceived := showSeqNum p\<rparr>))
              \<lparr>donePackets := insert (seqNum p) (donePackets r1),
               lastPktNum := (if lastPktNum r1 < int (seqNum p) then int (seqNum p) else lastPktNum r1)\<rparr>) =
             Inr (r2, b2)"
    using assms(3-5) receivePacket_new_data by simp
  then show ?thesis using r1 assms(4)
    by (auto simp: deliverPacket_def processPacketBuffer_def sendAckMessage_def Let_def split: if_splits)
qed

lemma nacked_handshake_ends_session_witness:
  "let h = new_packet\<lparr>data := [48, 0], checksum := 0\<rparr>;
       p = new_packet\<lparr>seqNum := 1, data := [65], checksum := int (unat (createChecksum [65]))\<rparr>
   in \<exists>r1 r2. receivePacket h init_receiver = Inr (r1, False) \<and> receivePacket p r1 = Inr (r2, True) \<and>
        senderFile r2 = []"
proof -
  let ?h = "new_packet\<lparr>data := [48, 0], checksum := 0\<rparr>"
  let ?p = "new_packet\<lparr>seqNum := 1, data := [65], checksum := int (unat (createChecksum [65]))\<rparr>"
  let ?r1 = "sendAckMessage 0 False (init_receiver\<lparr>numReceived := 1, lastReceived := 0\<rparr>)"
  have nv: "\<not> isValidChecksum ?h"
    by (simp add: isValidChecksum_def new_packet_def createChecksum_ones_sum ones_sum_def oc_norm_def
        unat_widen)
  have v: "isValidChecksum ?p" "0 < seqNum ?p" by (simp_all add: isValidChecksum_def new_packet_def)
  have r1: "receivePacket ?h init_receiver = Inr (?r1, False)"
    using receivePacket_reply_only[of ?h init_receiver] nv
    by (simp add: init_receiver_def new_packet_def showSeqNum_def)
  have n: "seqNum ?p \<notin> donePackets ?r1" by (simp add: sendAckMessage_def init_receiver_def new_packet_def)
  have "\<exists>r2 b2. receivePacket ?p ?r1 = Inr (r2, b2)"
    apply (subst receivePacket_new_data[OF v(1) n v(2)])
    apply (simp add: init_receiver_def sendAckMessage_def new_packet_def deliverPacket_def
        processPacketBuffer_def Let_def ex_bool_eq)
    done
  then obtain r2 b2 where r2: "receivePacket ?p ?r1 = Inr (r2, b2)" by blast
  show ?thesis using nacked_handshake_ends_session[OF nv r1 v r2] r1 r2 by (simp only: Let_def) blast
qed

end
