(* ===== verification/NetSockets.thy ===== *)
theory NetSockets
  imports Prelude
begin

text \<open>
  The transport of \<^verbatim>\<open>src/NetSockets.cpp\<close>: the \<^verbatim>\<open>NetSocket\<close> class over one TCP
  connection.  A byte stream is the list of bytes the peer has put on the connection and
  not yet been read; the kernel's choice of how many bytes one \<^verbatim>\<open>recv\<close> returns is an
  oracle, a list of \<open>recv_event\<close>s, so that every segmentation of the stream is covered.
  The system calls of socket creation are inputs (their results), so their error paths
  are branches of the model.  The lemmas show that \<^verbatim>\<open>getFromSocket\<close> returns exactly
  one frame of \<^verbatim>\<open>sendData\<close> when the frame has the expected size, whatever the
  segmentation, and what it returns when the sizes disagree.
\<close>

section \<open>The class\<close>

definition TYPE_SERVER :: int where "TYPE_SERVER = 1"
definition TYPE_CLIENT :: int where "TYPE_CLIENT = 2"

text \<open>The socket address is only passed to the system calls and is left out.\<close>

record netsocket =
  socketType :: int
  srv_file_desc :: int
  client_socket :: int

definition setType :: "int \<Rightarrow> netsocket \<Rightarrow> netsocket" where
  "setType t ns = ns\<lparr>socketType := t\<rparr>"

definition getType :: "netsocket \<Rightarrow> int" where
  "getType ns = socketType ns"

text \<open>The descriptor \<^verbatim>\<open>sendData\<close> and \<^verbatim>\<open>getFromSocket\<close> use.\<close>

definition socketToUse :: "netsocket \<Rightarrow> int" where
  "socketToUse ns = (if getType ns = TYPE_CLIENT then srv_file_desc ns else client_socket ns)"

text \<open>
  \<^verbatim>\<open>createServerSocket\<close> on the results of \<^verbatim>\<open>socket\<close>, \<^verbatim>\<open>setsockopt\<close>, \<^verbatim>\<open>bind\<close>
  and \<^verbatim>\<open>accept\<close>.  The first test is \<^verbatim>\<open>!srv_file_desc\<close>, true for descriptor 0 only;
  the result of \<^verbatim>\<open>listen\<close> and \<^verbatim>\<open>accept\<close> is not tested.
\<close>

definition createServerSocket :: "int \<Rightarrow> int \<Rightarrow> int \<Rightarrow> int \<Rightarrow> netsocket \<Rightarrow> bool \<times> netsocket" where
  "createServerSocket fd sockopt bindres acceptfd ns =
     (let ns1 = (setType TYPE_SERVER ns)\<lparr>srv_file_desc := fd\<rparr> in
      if fd = 0 then (False, ns1)
      else if sockopt < 0 then (False, ns1)
      else if bindres < 0 then (False, ns1)
      else (True, ns1\<lparr>client_socket := acceptfd\<rparr>))"

text \<open>\<^verbatim>\<open>createClientSocket\<close> on the results of \<^verbatim>\<open>socket\<close> and \<^verbatim>\<open>connect\<close>.\<close>

definition createClientSocket :: "int \<Rightarrow> int \<Rightarrow> netsocket \<Rightarrow> bool \<times> netsocket" where
  "createClientSocket fd connectres ns =
     (let ns1 = (setType TYPE_CLIENT ns)\<lparr>srv_file_desc := fd\<rparr> in (0 \<le> connectres, ns1))"

section \<open>sendData\<close>

text \<open>\<^verbatim>\<open>send(fd, s.data(), s.length() + 1, 0)\<close>: the string and its terminating NUL go on
  the stream (a blocking send of this size is assumed to complete).\<close>

definition sendData :: "wire \<Rightarrow> wire" where
  "sendData s = s @ [0]"

section \<open>getFromSocket\<close>

text \<open>
  What one \<^verbatim>\<open>recv\<close> does: deliver at most the requested count of the bytes available,
  and at least one when there are any (\<open>Deliver k\<close>, \<open>k\<close> bounded by \<open>max 1 k\<close>), or fail
  with \<open>-1\<close> (\<open>Fail\<close>).  When the oracle is used up, \<^verbatim>\<open>recv\<close> delivers what is asked.
\<close>

datatype recv_event = Deliver nat | Fail

text \<open>
  The \<^verbatim>\<open>do ... while (packetSize != 0 && hasRead < packetSize)\<close> loop, with the adjusted
  size \<open>ps\<close> and the buffer size \<open>buff\<close>.  A failed \<^verbatim>\<open>recv\<close> makes \<^verbatim>\<open>hasRead\<close> drop by
  one and \<^verbatim>\<open>recvBuffer.resize(-1)\<close> request \<^verbatim>\<open>SIZE_MAX\<close> elements, which throws
  \<^verbatim>\<open>length_error\<close>.  The result is the bytes read, the rest of the stream and the rest of
  the oracle.
\<close>

function getFromSocket_loop ::
  "int \<Rightarrow> nat \<Rightarrow> nat \<Rightarrow> recv_event list \<Rightarrow> wire \<Rightarrow> wire \<Rightarrow> (wire \<times> wire \<times> recv_event list) cpp_result" where
  "getFromSocket_loop ps buff hasRead evs st acc =
     (let remain = buff - hasRead in
      if remain = 0 then Inr (acc, st, evs)
      else
        case (case evs of [] \<Rightarrow> Deliver remain | e # _ \<Rightarrow> e) of
          Fail \<Rightarrow> Inl Length_Error
        | Deliver k \<Rightarrow>
            (let d = take (min remain (max 1 k)) st; evs' = drop 1 evs in
             if d = [] then Inr (acc, st, evs')
             else if ps \<noteq> 0 \<and> int (hasRead + length d) < ps
             then getFromSocket_loop ps buff (hasRead + length d) evs' (drop (length d) st) (acc @ d)
             else Inr (acc @ d, drop (length d) st, evs')))"
  by pat_completeness auto
termination
  by (relation "measure (\<lambda>(ps, buff, hasRead, evs, st, acc). buff - hasRead)")
     (auto simp: min_def max_def neq_Nil_conv)

text \<open>
  \<^verbatim>\<open>getFromSocket(packetSize)\<close>: a positive size means a frame of \<open>packetSize + 51\<close>
  bytes (header, data, NUL), read to the end; otherwise one \<^verbatim>\<open>recv\<close> of at most 65535
  bytes.  The last byte read (the NUL of a whole frame) is dropped, so a read of one byte
  returns the empty string, as a closed connection does.
\<close>

definition getFromSocket ::
  "int \<Rightarrow> recv_event list \<Rightarrow> wire \<Rightarrow> (wire \<times> wire \<times> recv_event list) cpp_result" where
  "getFromSocket packetSize evs st =
     (let ps = (if 0 < packetSize then packetSize + 51 else packetSize);
          buff = (if 0 < ps then nat ps else 65535)
      in res_bind (getFromSocket_loop ps buff 0 evs st [])
           (\<lambda>(acc, st', evs'). Inr (if acc = [] then [] else butlast acc, st', evs')))"

declare getFromSocket_loop.simps [simp del]

section \<open>Lemmas\<close>

lemma getFromSocket_loop_Deliver:
  assumes "buff - hasRead \<noteq> 0" and "(case evs of [] \<Rightarrow> Deliver (buff - hasRead) | e # _ \<Rightarrow> e) = Deliver k"
    and "d = take (min (buff - hasRead) (max 1 k)) st" and "d \<noteq> []"
  shows "getFromSocket_loop ps buff hasRead evs st acc =
           (if ps \<noteq> 0 \<and> int (hasRead + length d) < ps
            then getFromSocket_loop ps buff (hasRead + length d) (drop 1 evs) (drop (length d) st) (acc @ d)
            else Inr (acc @ d, drop (length d) st, drop 1 evs))"
  using assms by (subst getFromSocket_loop.simps) (simp add: Let_def min_def)

text \<open>
  A loop that has to read \<open>n = buff - hasRead\<close> more bytes of a stream that holds at
  least that many reads exactly those, whatever the segmentation, as long as no
  \<^verbatim>\<open>recv\<close> fails.
\<close>

lemma getFromSocket_loop_exact:
  assumes "int buff = ps" and "hasRead \<le> buff" and "buff - hasRead \<le> length st"
    and "Fail \<notin> set evs"
  shows "\<exists>evs'. getFromSocket_loop ps buff hasRead evs st acc =
            Inr (acc @ take (buff - hasRead) st, drop (buff - hasRead) st, evs')"
  using assms
proof (induction ps buff hasRead evs st acc rule: getFromSocket_loop.induct)
  case (1 ps buff hasRead evs st acc)
  show ?case
  proof (cases "buff - hasRead = 0")
    case True
    then show ?thesis by (simp add: getFromSocket_loop.simps)
  next
    case False
    define k where "k = (case evs of [] \<Rightarrow> buff - hasRead | Deliver k # _ \<Rightarrow> k | Fail # _ \<Rightarrow> 0)"
    have ev: "(case evs of [] \<Rightarrow> Deliver (buff - hasRead) | e # _ \<Rightarrow> e) = Deliver k"
      using "1.prems"(4) by (cases evs) (auto simp: k_def split: recv_event.splits)
    define d where "d = take (min (buff - hasRead) (max 1 k)) st"
    have ld: "length d = min (buff - hasRead) (max 1 k)" using "1.prems"(3) by (simp add: d_def)
    then have d0: "d \<noteq> []" using False by auto
    have td: "take (length d) st = d" unfolding d_def by (simp add: min_def)
    have nf: "Fail \<notin> set (drop 1 evs)" using "1.prems"(4) by (auto dest: in_set_dropD)
    show ?thesis
    proof (cases "int (hasRead + length d) < ps")
      case True
      have IH: "\<exists>evs'. getFromSocket_loop ps buff (hasRead + length d) (drop 1 evs) (drop (length d) st) (acc @ d) =
          Inr ((acc @ d) @ take (buff - (hasRead + length d)) (drop (length d) st),
               drop (buff - (hasRead + length d)) (drop (length d) st), evs')"
        using "1.prems" ld nf True
        by (intro "1.IH"[OF refl False ev d_def refl d0]) (auto simp: min_def max_def)
      have e: "length d + (buff - (hasRead + length d)) = buff - hasRead" using ld by (simp add: min_def)
      have "take (buff - hasRead) st = take (length d) st @ take (buff - (hasRead + length d)) (drop (length d) st)"
        by (subst e[symmetric]) (rule take_add)
      then have "d @ take (buff - (hasRead + length d)) (drop (length d) st) = take (buff - hasRead) st"
        using td by simp
      moreover have "drop (buff - (hasRead + length d)) (drop (length d) st) = drop (buff - hasRead) st"
        using e by (metis add.commute drop_drop)
      ultimately show ?thesis using IH True "1.prems"(1)
        by (simp add: getFromSocket_loop_Deliver[OF False ev d_def d0])
    next
      case nt: False
      then have "length d = buff - hasRead" using ld "1.prems"(1,2) by simp
      then have "d = take (buff - hasRead) st" using td by simp
      then show ?thesis using nt "1.prems"(1,3) \<open>length d = buff - hasRead\<close>
        by (simp add: getFromSocket_loop_Deliver[OF False ev d_def d0])
    qed
  qed
qed

lemma getFromSocket_frame_read:
  assumes "0 < packetSize" and "nat packetSize + 51 \<le> length st" and "Fail \<notin> set evs"
  shows "\<exists>evs'. getFromSocket packetSize evs st =
            Inr (butlast (take (nat packetSize + 51) st), drop (nat packetSize + 51) st, evs')"
proof -
  have b: "int (nat (packetSize + 51)) = packetSize + 51" using assms(1) by simp
  have n: "nat (packetSize + 51) = nat packetSize + 51" using assms(1) by simp
  obtain evs' where "getFromSocket_loop (packetSize + 51) (nat (packetSize + 51)) 0 evs st [] =
      Inr (take (nat (packetSize + 51)) st, drop (nat (packetSize + 51)) st, evs')"
    using getFromSocket_loop_exact[OF b _ _ assms(3), of 0 st "[]"] assms(2) n by auto
  moreover note n
  moreover have "take (nat packetSize + 51) st \<noteq> []" using assms(2) by (cases st) auto
  ultimately show ?thesis using assms(1) by (simp add: getFromSocket_def)
qed

section \<open>Properties\<close>

text \<open>C29: Framing round trip: a frame of the expected size (header and \<^verbatim>\<open>packetSize\<close>
  data bytes) put on the stream by \<^verbatim>\<open>sendData\<close> is returned whole by
  \<^verbatim>\<open>getFromSocket(packetSize)\<close>, with its NUL removed and the stream left at the next
  frame, however the kernel segments the bytes.\<close>

theorem getFromSocket_sendData:
  assumes "0 < packetSize" and "length s = nat packetSize + 50" and "Fail \<notin> set evs"
  shows "\<exists>evs'. getFromSocket packetSize evs (sendData s @ rest) = Inr (s, rest, evs')"
  using getFromSocket_frame_read[OF assms(1) _ assms(3), of "sendData s @ rest"] assms(2)
  by (simp add: sendData_def)

lemma getFromSocket_sendData_witness:
  "\<exists>evs'. getFromSocket 1 [Deliver 7, Deliver 20] (sendData (replicate 51 49) @ [50, 0]) =
      Inr (replicate 51 49, [50, 0], evs')"
  using getFromSocket_sendData[of 1 "replicate 51 49" "[Deliver 7, Deliver 20]" "[50, 0]"] by simp

text \<open>C30: Framing loss: a frame shorter than the size the reader expects is returned with
  its NUL and the first bytes of the next frame appended, and the stream is left inside
  the next frame, so every later read is misaligned.\<close>

theorem getFromSocket_short_frame:
  assumes "0 < packetSize" and "length s < nat packetSize + 50"
    and "nat packetSize + 50 - length s \<le> length rest" and "Fail \<notin> set evs"
  shows "\<exists>evs'. getFromSocket packetSize evs (sendData s @ rest) =
            Inr (s @ 0 # take (nat packetSize + 49 - length s) rest,
                 drop (nat packetSize + 50 - length s) rest, evs')"
proof -
  let ?m = "nat packetSize + 50 - length s"
  have m: "nat packetSize + 51 = Suc (length s) + ?m" "0 < ?m" using assms(2) by auto
  have sm: "nat packetSize + 51 - length s = Suc ?m" using assms(2) by simp
  then have "take (nat packetSize + 51) (sendData s @ rest) = s @ 0 # take ?m rest"
    by (simp add: sendData_def)
  moreover have "take ?m rest = take (?m - 1) rest @ [rest ! (?m - 1)]"
    using m(2) assms(3) by (metis Suc_diff_1 Suc_le_lessD take_Suc_conv_app_nth)
  moreover have "drop (nat packetSize + 51) (sendData s @ rest) = drop ?m rest"
    using sm by (simp add: sendData_def)
  moreover have "?m - 1 = nat packetSize + 49 - length s" by simp
  ultimately show ?thesis
    using getFromSocket_frame_read[OF assms(1) _ assms(4), of "sendData s @ rest"] assms(3) m(1)
    by (simp add: sendData_def butlast_append)
qed

lemma getFromSocket_short_frame_witness:
  "\<exists>evs'. getFromSocket 1 [] (sendData (replicate 48 49) @ [48, 49, 50, 51]) =
      Inr (replicate 48 49 @ [0, 48, 49], [51], evs')"
  using getFromSocket_short_frame[of 1 "replicate 48 49" "[48, 49, 50, 51]" "[]"] by simp

text \<open>C31: A one-byte read looks like a closed connection: \<^verbatim>\<open>getFromSocket(0)\<close> drops the
  last byte it read, so when the kernel hands over a single byte the caller gets the
  empty string, which the receiver's loop takes for the peer having closed.\<close>

theorem getFromSocket_one_byte:
  "getFromSocket 0 (Deliver 1 # evs) (c # st) = Inr ([], st, evs)"
  by (subst getFromSocket_def, subst getFromSocket_loop.simps) (simp add: Let_def getFromSocket_loop.simps)

text \<open>C32: A failed \<^verbatim>\<open>recv\<close> is not handled: the read count goes negative and the buffer
  resize throws, whatever the requested size and the stream.\<close>

theorem getFromSocket_recv_fail:
  "getFromSocket packetSize (Fail # evs) st = Inl Length_Error"
proof -
  have "0 < (if 0 < (if 0 < packetSize then packetSize + 51 else packetSize)
             then nat (if 0 < packetSize then packetSize + 51 else packetSize) else 65535)" by auto
  then show ?thesis
    by (subst getFromSocket_def, subst getFromSocket_loop.simps) (simp add: Let_def)
qed

end
