(* ===== verification/Session.thy ===== *)
theory Session
  imports Sender Receiver NetSockets
begin

text \<open>
  The session set-up and the chunking of the sender's \<^verbatim>\<open>main\<close> (\<^verbatim>\<open>src/sender.cpp\<close>):
  the handshake encoder of \<^verbatim>\<open>sendInitialFilePacket\<close> and its wait for a reply, the
  round-trip measurement of \<^verbatim>\<open>calculateDynamicTimeout\<close>, the packet count of
  \<^verbatim>\<open>main\<close> and its chunk loop, which hands each chunk it reads to the engine.  The
  lemmas give the handshake round trip against the receiver's \<^verbatim>\<open>readInitialPacket\<close>,
  the reply wait's acceptance of any reply and its spinning on a closed socket, the
  dynamic timeout's agreement with the spec's formula while its total stays below
  \<open>2^31\<close> and its wrap-around above, the narrowing of the file size to \<^verbatim>\<open>int\<close>, the
  equivalence of the chunk loop with a reference chunking whose pieces concatenate to
  the bytes the size covers, its termination and its failure on an empty file.
\<close>

section \<open>sendInitialFilePacket\<close>

definition GBN :: wire where
  "GBN = [71, 66, 78]"

definition SR :: wire where
  "SR = [83, 82]"

text \<open>
  The payload: six fixed-width fields, the decimal numbers zero-padded to 16 bytes (the
  window size is the string \<^verbatim>\<open>"1"\<close> under Go-Back-N), the protocol tag space-padded to
  3, then the output file name and a NUL.  Each padding throws \<^verbatim>\<open>length_error\<close> on a
  string longer than its field.
\<close>

definition initialPayload :: "wire \<Rightarrow> int \<Rightarrow> int \<Rightarrow> int \<Rightarrow> int \<Rightarrow> wire \<Rightarrow> int \<Rightarrow> wire cpp_result" where
  "initialPayload outFileName fileSz numPkts pktSize winSize protocolType seqRng =
     res_bind (pad_left 16 48 (to_string fileSz)) (\<lambda>padFileSize.
     res_bind (pad_left 16 48 (to_string numPkts)) (\<lambda>padNumPackets.
     res_bind (pad_left 16 48 (to_string pktSize)) (\<lambda>padPacketSize.
     res_bind (pad_left 16 48 (if protocolType = GBN then [49] else to_string winSize))
       (\<lambda>padSlidingWindowSize.
     res_bind (pad_left 3 32 protocolType) (\<lambda>padProtocolType.
     res_bind (pad_left 16 48 (to_string seqRng)) (\<lambda>padSeqNumRange.
       Inr (padFileSize @ padNumPackets @ padPacketSize @ padSlidingWindowSize @ padProtocolType
            @ padSeqNumRange @ outFileName @ [0])))))))"

text \<open>The handshake packet: a fresh \<^verbatim>\<open>Packet()\<close> with number 0 and the payload.\<close>

definition initialPacket :: "wire \<Rightarrow> packet" where
  "initialPacket packetData = new_packet\<lparr>seqNum := 0, data := packetData\<rparr>"

text \<open>
  The wait for the reply, over the strings successive \<^verbatim>\<open>getFromSocket(0)\<close> calls return:
  empty strings are skipped, the first non-empty one is decoded (the decoder may throw)
  and ends the wait whatever its ack code.  When the strings run out first the loop is
  still spinning: \<open>None\<close>.
\<close>

fun await_ack :: "int \<Rightarrow> wire list \<Rightarrow> packet cpp_result option" where
  "await_ack seqRng [] = None"
| "await_ack seqRng (socketData # rest) =
     (if 0 < length socketData
      then Some (res_bind (reversePacket socketData new_packet)
                   (\<lambda>ackPacket. Inr (ackPacket\<lparr>seqNumRange := seqRng\<rparr>)))
      else await_ack seqRng rest)"

text \<open>
  The whole call: the bytes \<^verbatim>\<open>sendData\<close> puts on the stream and the reply that ends the
  wait.
\<close>

definition sendInitialFilePacket ::
  "wire \<Rightarrow> int \<Rightarrow> int \<Rightarrow> int \<Rightarrow> int \<Rightarrow> wire \<Rightarrow> int \<Rightarrow> wire list \<Rightarrow> (wire \<times> packet) cpp_result option" where
  "sendInitialFilePacket outFileName fileSz numPkts pktSize winSize protocolType
     seqRng replies =
     (case initialPayload outFileName fileSz numPkts pktSize winSize protocolType
             seqRng of
        Inl e \<Rightarrow> Some (Inl e)
      | Inr packetData \<Rightarrow>
          map_option (\<lambda>a. res_bind a (\<lambda>ackPacket.
              Inr (sendData (createPacketString False (initialPacket packetData)), ackPacket)))
            (await_ack seqRng replies))"

section \<open>calculateDynamicTimeout\<close>

text \<open>The inner wait: strings are read until one starts with \<^verbatim>\<open>PING\<close>.\<close>

definition is_ping :: "wire \<Rightarrow> bool" where
  "is_ping socketData = (0 < length socketData \<and> take 4 socketData = PING)"

fun await_ping :: "wire list \<Rightarrow> wire list option" where
  "await_ping [] = None"
| "await_ping (socketData # rest) = (if is_ping socketData then Some rest else await_ping rest)"

text \<open>
  The integer widths of the round: the tick counts of \<^verbatim>\<open>chrono\<close> durations are
  \<^verbatim>\<open>long long\<close>, \<^verbatim>\<open>totalTimeMS\<close> is an \<^verbatim>\<open>int\<close>.  Signed overflow in
  \<^verbatim>\<open>int\<close> or \<^verbatim>\<open>long long\<close> arithmetic is undefined; the conversion of a
  \<^verbatim>\<open>long long\<close> to \<^verbatim>\<open>int\<close> keeps the low 32 bits.
\<close>

definition in_signed_range :: "nat \<Rightarrow> int \<Rightarrow> bool" where
  "in_signed_range w x = (- (2 ^ (w - 1)) \<le> x \<and> x < 2 ^ (w - 1))"

definition to_int32 :: "int \<Rightarrow> int" where
  "to_int32 x = sint (word_of_int x :: 32 word)"

text \<open>
  One round's addition to \<^verbatim>\<open>totalTimeMS\<close>: under a millisecond, the \<^verbatim>\<open>int\<close> sum
  \<^verbatim>\<open>totalTimeMS + timeoutMulti\<close>; otherwise the product and the sum are
  \<^verbatim>\<open>long long\<close> and the sum is narrowed back to \<^verbatim>\<open>int\<close>.
\<close>

definition add_round :: "int \<Rightarrow> nat \<Rightarrow> int \<Rightarrow> int cpp_result" where
  "add_round timeoutMulti timeRTTMS totalTimeMS =
     (if timeRTTMS = 0 then
        (if in_signed_range 32 (totalTimeMS + timeoutMulti) then Inr (totalTimeMS + timeoutMulti)
         else Inl Undefined_Behaviour)
      else let p = int timeRTTMS * timeoutMulti in
        (if in_signed_range 64 p \<and> in_signed_range 64 (totalTimeMS + p)
         then Inr (to_int32 (totalTimeMS + p)) else Inl Undefined_Behaviour))"

text \<open>
  The \<open>k\<close> remaining rounds of \<^verbatim>\<open>for (int i = 0; i < 3; i++)\<close>.  Each round reads the
  steady clock (in nanoseconds) before the \<^verbatim>\<open>PING\<close> and after its echo;
  \<^verbatim>\<open>duration_cast<milliseconds>\<close> truncates the difference.  \<open>None\<close>: the loop
  is still waiting for an echo when the strings (or the clock readings) run out.
\<close>

fun rtt_rounds :: "nat \<Rightarrow> int \<Rightarrow> nat list \<Rightarrow> wire list \<Rightarrow> int \<Rightarrow> (int \<times> wire list) cpp_result option" where
  "rtt_rounds 0 timeoutMulti clock replies totalTimeMS = Some (Inr (totalTimeMS, replies))"
| "rtt_rounds (Suc k) timeoutMulti (timeRTTStart # timeRTTEnd # clock) replies totalTimeMS =
     (case await_ping replies of
        None \<Rightarrow> None
      | Some rest \<Rightarrow>
          (case add_round timeoutMulti ((timeRTTEnd - timeRTTStart) div 1000000) totalTimeMS of
             Inl e \<Rightarrow> Some (Inl e)
           | Inr totalMS \<Rightarrow> rtt_rounds k timeoutMulti clock rest totalMS))"
| "rtt_rounds (Suc k) timeoutMulti clock replies totalTimeMS = None"

text \<open>The timeout: the average of the three rounds, at least 1 ms.  C++ \<^verbatim>\<open>/\<close> on
  \<^verbatim>\<open>int\<close> truncates toward zero, which is \<open>sdiv\<close>.\<close>

definition calculateDynamicTimeout ::
  "int \<Rightarrow> nat list \<Rightarrow> wire list \<Rightarrow> (int \<times> wire list) cpp_result option" where
  "calculateDynamicTimeout timeoutMulti clock replies =
     map_option (map_sum id (\<lambda>(totalTimeMS, rest). (max 1 (totalTimeMS sdiv 3), rest)))
       (rtt_rounds 3 timeoutMulti clock replies 0)"

text \<open>
  The timeout the spec describes, in unbounded arithmetic: the millisecond counts of the
  rounds (at least 1 each) times the factor, averaged, at least 1.
\<close>

fun round_ms :: "nat list \<Rightarrow> nat list" where
  "round_ms (t0 # t1 # clock) = (t1 - t0) div 1000000 # round_ms clock"
| "round_ms clock = []"

definition spec_timeout :: "int \<Rightarrow> nat list \<Rightarrow> int" where
  "spec_timeout timeoutMulti ms =
     max 1 ((\<Sum>m\<leftarrow>ms. int (max 1 m) * timeoutMulti) div 3)"

section \<open>The options of main\<close>

text \<open>
  The operator's answers after \<^verbatim>\<open>main\<close>'s checks: a protocol other than
  \<^verbatim>\<open>GBN\<close> or \<^verbatim>\<open>SR\<close> ends the program (\<open>None\<close>, \<^verbatim>\<open>return 1\<close>); with a dynamic
  timeout (\<open>tmo = 0\<close>) the factor is raised to at least 1; the window size is raised to
  at least 1.  The result is the factor and the window size.
\<close>

definition main_options :: "wire \<Rightarrow> int \<Rightarrow> int \<Rightarrow> int \<Rightarrow> (int \<times> int) option" where
  "main_options protocolType tmo timeoutMulti winSize =
     (if protocolType \<noteq> GBN \<and> protocolType \<noteq> SR then None
      else Some (if tmo = 0 \<and> timeoutMulti < 1 then 1 else timeoutMulti,
                 if winSize < 1 then 1 else winSize))"

section \<open>The chunking of main\<close>

text \<open>The exits of \<^verbatim>\<open>main\<close> on its file: an uncaught exception, or \<^verbatim>\<open>return 1\<close>
  after \<^verbatim>\<open>"Cannot Read File"\<close> or \<^verbatim>\<open>"Read Failed"\<close>.\<close>

datatype main_error = Exception cpp_error | Cannot_Read_File | Read_Failed

text \<open>
  The packet count: one packet per full chunk, one for the handshake, and one more for a
  partial last chunk.  All three are \<^verbatim>\<open>int\<close>: \<^verbatim>\<open>/\<close> and \<^verbatim>\<open>%\<close> by zero, and a
  quotient or a count outside the \<^verbatim>\<open>int\<close> range, are undefined.
\<close>

definition packet_count :: "int \<Rightarrow> int \<Rightarrow> (int \<times> int) cpp_result" where
  "packet_count fileSz pktSize =
     (if pktSize = 0 then Inl Undefined_Behaviour
      else let q = fileSz sdiv pktSize;
               finalChunkSize = fileSz smod pktSize
           in if \<not> in_signed_range 32 q \<or> \<not> in_signed_range 32 (q + 1) then Inl Undefined_Behaviour
              else let numPkts = q + 1 in
                if 0 < finalChunkSize then
                  (if in_signed_range 32 (numPkts + 1) then Inr (numPkts + 1, finalChunkSize)
                   else Inl Undefined_Behaviour)
                else Inr (numPkts, finalChunkSize))"

text \<open>
  The loop \<^verbatim>\<open>while (!inFile.eof())\<close> on the unread rest of the file.  \<^verbatim>\<open>read\<close> of
  more bytes than remain fails (\<^verbatim>\<open>"Read Failed"\<close>); a read that succeeds never sets the
  end-of-file flag, so the loop's test holds whenever it is reached and the loop ends at
  the \<^verbatim>\<open>break\<close> after the last packet.  A negative size makes \<^verbatim>\<open>vector<char>\<close> throw.
  \<open>step\<close> is what the body does with the chunk (\<^verbatim>\<open>processChunkData\<close>, then
  \<^verbatim>\<open>checkPacketQueue\<close>); it is \<open>None\<close> when that does not return.
\<close>

partial_function (option) chunk_loop ::
  "(wire \<Rightarrow> 's \<Rightarrow> 's option) \<Rightarrow> int \<Rightarrow> int \<Rightarrow> int \<Rightarrow> int \<Rightarrow> wire \<Rightarrow> 's \<Rightarrow> (main_error + 's) option" where
  "chunk_loop step numPkts finalChunkSize pktSize curChunkNum inFile s =
     (let cur = curChunkNum + 1;
          amountToRead = (if cur = numPkts \<and> 0 < finalChunkSize then finalChunkSize else pktSize)
      in if amountToRead < 0 then Some (Inl (Exception Length_Error))
         else if int (length inFile) < amountToRead then Some (Inl Read_Failed)
         else case step (take (nat amountToRead) inFile) s of
                None \<Rightarrow> None
              | Some s' \<Rightarrow>
                  if cur = numPkts then Some (Inr s')
                  else chunk_loop step numPkts finalChunkSize pktSize cur
                         (drop (nat amountToRead) inFile) s')"

text \<open>
  The file part of \<^verbatim>\<open>main\<close>: the size \<^verbatim>\<open>int fileSize = inFile.tellg()\<close> (\<open>-1\<close> for
  a file that cannot be opened; the stream position is narrowed to \<^verbatim>\<open>int\<close>, keeping its
  low 32 bits), the check for a negative size, the packet count, then the chunk loop from
  \<^verbatim>\<open>curChunkNum = 1\<close> over the whole file.
\<close>

definition send_file ::
  "(wire \<Rightarrow> 's \<Rightarrow> 's option) \<Rightarrow> int \<Rightarrow> wire option \<Rightarrow> 's \<Rightarrow> (main_error + 's) option" where
  "send_file step pktSize inFile s =
     (let fileSz = (case inFile of None \<Rightarrow> -1 | Some file \<Rightarrow> to_int32 (int (length file)))
      in if fileSz < 0 then Some (Inl Cannot_Read_File)
         else case packet_count fileSz pktSize of
                Inl e \<Rightarrow> Some (Inl (Exception e))
              | Inr (numPkts, finalChunkSize) \<Rightarrow>
                  chunk_loop step numPkts finalChunkSize pktSize 1 (the inFile) s)"

text \<open>The reference chunking: pieces of \<open>n\<close> bytes, the last one shorter.\<close>

fun file_chunks :: "nat \<Rightarrow> wire \<Rightarrow> wire list" where
  "file_chunks n file =
     (if file = [] \<or> n = 0 then [] else take n file # file_chunks n (drop n file))"

declare file_chunks.simps [simp del]

text \<open>Running a step that may not return over a list of chunks.\<close>

fun fold_opt :: "('a \<Rightarrow> 's \<Rightarrow> 's option) \<Rightarrow> 'a list \<Rightarrow> 's \<Rightarrow> 's option" where
  "fold_opt step [] s = Some s"
| "fold_opt step (c # cs) s = (case step c s of None \<Rightarrow> None | Some s' \<Rightarrow> fold_opt step cs s')"

section \<open>Lemmas\<close>

lemma file_chunks_Nil [simp]: "file_chunks n [] = []"
  by (simp add: file_chunks.simps)

lemma file_chunks_Cons:
  "0 < n \<Longrightarrow> bs \<noteq> [] \<Longrightarrow> file_chunks n bs = take n bs # file_chunks n (drop n bs)"
  by (simp add: file_chunks.simps)

lemma file_chunks_short:
  "0 < n \<Longrightarrow> bs \<noteq> [] \<Longrightarrow> length bs \<le> n \<Longrightarrow> file_chunks n bs = [bs]"
  by (simp add: file_chunks_Cons)

lemma concat_file_chunks: "0 < n \<Longrightarrow> concat (file_chunks n bs) = bs"
proof (induction n bs rule: file_chunks.induct)
  case (1 n bs)
  then show ?case by (cases "bs = []") (simp_all add: file_chunks_Cons)
qed

lemma length_file_chunks:
  "0 < n \<Longrightarrow> length (file_chunks n bs) = (length bs + n - 1) div n"
proof (induction n bs rule: file_chunks.induct)
  case (1 n bs)
  show ?case
  proof (cases "bs = []")
    case False
    show ?thesis
    proof (cases "length bs \<le> n")
      case True
      have "length bs + n - 1 = (length bs - 1) + n * 1" using False by (cases bs) auto
      moreover have "length bs - 1 < n" using True False by (cases bs) auto
      ultimately show ?thesis using 1 False True by (simp only: div_mult_self2) (simp add: file_chunks_short)
    next
      case long: False
      have ih: "length (file_chunks n (drop n bs)) = (length bs - 1) div n"
        using 1 False long by simp
      have "length bs + n - 1 = (length bs - 1) + n * 1" using long by simp
      then have "(length bs + n - 1) div n = Suc ((length bs - 1) div n)"
        using 1(2) by (simp only: div_mult_self2)
      then show ?thesis using ih 1(2) False by (simp add: file_chunks_Cons)
    qed
  qed (use 1 in simp)
qed

lemma file_chunks_bounds:
  "0 < n \<Longrightarrow> c \<in> set (file_chunks n bs) \<Longrightarrow> c \<noteq> [] \<and> length c \<le> n"
proof (induction n bs rule: file_chunks.induct)
  case (1 n bs)
  then show ?case by (cases "bs = []") (auto simp: file_chunks_Cons)
qed

lemma div_add_small: "a < (n::nat) \<Longrightarrow> (a + n * k) div n = k"
  by simp

lemma ceil_div_eq: "0 < (n::nat) \<Longrightarrow> (L + n - 1) div n = L div n + (if 0 < L mod n then 1 else 0)"
proof -
  assume n: "0 < n"
  have L: "L = L mod n + n * (L div n)" by simp
  show ?thesis
  proof (cases "L mod n = 0")
    case True
    then have "L + n - 1 = (n - 1) + n * (L div n)" using L n by linarith
    then show ?thesis using True n div_add_small[of "n - 1" n "L div n"] by simp
  next
    case False
    then have "L + n - 1 = (L mod n - 1) + n * Suc (L div n)" using L n by simp
    moreover have "L mod n - 1 < n" using n by (meson le_less_trans diff_le_self mod_less_divisor)
    ultimately show ?thesis using False div_add_small[of "L mod n - 1" n "Suc (L div n)"] by simp
  qed
qed

lemma sdiv_smod_of_nat: "int a sdiv int b = int (a div b) \<and> int a smod int b = int (a mod b)"
  by (simp add: signed_divide_int_def signed_modulo_int_def sgn_if zdiv_int zmod_int)

lemma length_file_chunks_le: "0 < n \<Longrightarrow> length (file_chunks n bs) \<le> length bs"
proof (induction n bs rule: file_chunks.induct)
  case (1 n bs)
  show ?case
  proof (cases "bs = [] \<or> length bs \<le> n")
    case True
    then show ?thesis using 1(2) by (cases "bs = []") (auto simp: file_chunks_short Suc_le_eq)
  next
    case False
    then show ?thesis using 1 by (auto simp: file_chunks_Cons)
  qed
qed

text \<open>Below \<open>2^31 - 1\<close> bytes the counts stay inside \<^verbatim>\<open>int\<close>.\<close>

lemma packet_count_file:
  assumes "0 < n" and "length bs < 2 ^ 31 - 1"
  shows "packet_count (int (length bs)) (int n) =
           Inr (1 + int (length (file_chunks n bs)), int (length bs mod n))"
proof -
  let ?L = "length bs"
  have c: "length (file_chunks n bs) = ?L div n + (if 0 < ?L mod n then 1 else 0)"
    using length_file_chunks[OF assms(1)] ceil_div_eq[OF assms(1)] by simp
  have "length (file_chunks n bs) \<le> ?L" using length_file_chunks_le[OF assms(1)] .
  then have b: "?L div n + (if 0 < ?L mod n then 1 else 0) < 2 ^ 31 - 1" using c assms(2) by linarith
  show ?thesis
  proof (cases "?L mod n = 0")
    case True
    then show ?thesis using b c assms(1)
      by (simp add: packet_count_def Let_def sdiv_smod_of_nat in_signed_range_def)
  next
    case False
    then show ?thesis using b c assms(1)
      by (simp add: packet_count_def Let_def sdiv_smod_of_nat in_signed_range_def)
  qed
qed

lemma last_chunk_amount:
  assumes "0 < n" and "bs \<noteq> []" and "length bs \<le> n"
  shows "(if 0 < int (length bs mod n) then int (length bs mod n) else int n) = int (length bs)"
proof (cases "length bs = n")
  case False
  then have "length bs mod n = length bs" using assms(3) by simp
  then show ?thesis using assms(2) by simp
qed simp

text \<open>The loop reads exactly the chunks of the first bytes its count covers; bytes past them
  are never read.\<close>

lemma chunk_loop_chunks:
  assumes "0 < n" and "bs \<noteq> []" and "np = c + int (length (file_chunks n bs))"
    and "fin = int (length bs mod n)"
  shows "chunk_loop step np fin (int n) c (bs @ ys) s =
           map_option Inr (fold_opt step (file_chunks n bs) s)"
  using assms
proof (induction n bs arbitrary: c s rule: file_chunks.induct)
  case (1 n bs)
  show ?case
  proof (cases "length bs \<le> n")
    case True
    then have fc: "file_chunks n bs = [bs]" using 1 by (simp add: file_chunks_short)
    have a: "(if 0 < fin then fin else int n) = int (length bs)"
      unfolding 1(5) by (rule last_chunk_amount[OF 1(2,3) True])
    then show ?thesis using 1(4) fc
      by (subst chunk_loop.simps) (simp add: Let_def split: option.split)
  next
    case False
    let ?rest = "drop n bs"
    have fc: "file_chunks n bs = take n bs # file_chunks n ?rest" using 1 by (simp add: file_chunks_Cons)
    have r: "?rest \<noteq> []" using False by simp
    then have ne: "file_chunks n ?rest \<noteq> []" using 1(2) by (simp add: file_chunks_Cons)
    have np: "np = (c + 1) + int (length (file_chunks n ?rest))" using 1(4) fc by simp
    have fin: "fin = int (length ?rest mod n)"
      using 1(5) False by (simp add: le_mod_geq)
    have ih: "\<And>s'. chunk_loop step np fin (int n) (c + 1) (?rest @ ys) s' =
        map_option Inr (fold_opt step (file_chunks n ?rest) s')"
      using 1(1)[OF _ 1(2) r np fin] 1(2,3) by simp
    have "c + 1 \<noteq> np" using np ne by simp
    then show ?thesis using fc False ih
      by (subst chunk_loop.simps) (simp add: Let_def split: option.split)
  qed
qed

text \<open>\<^verbatim>\<open>int fileSize = inFile.tellg()\<close> keeps the size modulo \<open>2^32\<close>, read as signed.\<close>

lemma to_int32_size:
  "int L mod 2 ^ 32 < 2 ^ 31 \<Longrightarrow> to_int32 (int L) = int L mod 2 ^ 32"
  "2 ^ 31 \<le> int L mod 2 ^ 32 \<Longrightarrow> to_int32 (int L) < 0"
proof -
  have e: "(int L + 2 ^ 31) mod 2 ^ 32 = (int L mod 2 ^ 32 + 2 ^ 31) mod 2 ^ 32"
    by (simp add: mod_add_left_eq)
  have m: "0 \<le> int L mod 2 ^ 32" "int L mod 2 ^ 32 < 2 ^ 32" by simp_all
  show "int L mod 2 ^ 32 < 2 ^ 31 \<Longrightarrow> to_int32 (int L) = int L mod 2 ^ 32"
    using m e unfolding to_int32_def int_word_sint by simp
  show "2 ^ 31 \<le> int L mod 2 ^ 32 \<Longrightarrow> to_int32 (int L) < 0"
  proof -
    assume a: "2 ^ 31 \<le> int L mod 2 ^ 32"
    have "(int L mod 2 ^ 32 + 2 ^ 31) mod 2 ^ 32 = int L mod 2 ^ 32 + 2 ^ 31 - 2 ^ 32"
      using a m by (intro mod_once) simp_all
    then show ?thesis using e m unfolding to_int32_def int_word_sint by simp
  qed
qed

lemma send_file_eq:
  assumes "0 < pktSize" and "int (length bs) mod 2 ^ 32 = int k" and "0 < k" and "k < 2 ^ 31 - 1"
  shows "send_file step pktSize (Some bs) s =
           map_option Inr (fold_opt step (file_chunks (nat pktSize) (take k bs)) s)"
proof -
  let ?n = "nat pktSize" and ?b = "take k bs"
  have n: "0 < ?n" "int ?n = pktSize" using assms(1) by simp_all
  have sz: "to_int32 (int (length bs)) = int k" using to_int32_size(1)[of "length bs"] assms(2,4) by simp
  have k: "k \<le> length bs" using assms(2) zmod_le_nonneg_dividend[of "int (length bs)" "2 ^ 32"] by simp
  then have lb: "length ?b = k" "?b \<noteq> []" using assms(3) by auto
  have bs: "bs = ?b @ drop k bs" by simp
  have "packet_count (int k) pktSize =
      Inr (1 + int (length (file_chunks ?n ?b)), int (k mod ?n))"
    using packet_count_file[OF n(1), of ?b] lb assms(4) n(2) by simp
  moreover have "chunk_loop step (1 + int (length (file_chunks ?n ?b))) (int (k mod ?n)) pktSize 1
      (?b @ drop k bs) s = map_option Inr (fold_opt step (file_chunks ?n ?b) s)"
    using chunk_loop_chunks[OF n(1) lb(2), of "1 + int (length (file_chunks ?n ?b))" 1
        "int (k mod ?n)" step "drop k bs" s] n(2) lb(1) by simp
  ultimately show ?thesis using sz by (simp add: send_file_def)
qed

text \<open>With a positive packet size every read is of at least one byte, so the loop ends.\<close>

lemma chunk_loop_returns:
  assumes "0 < pktSize" and "\<forall>c s. step c s \<noteq> None"
  shows "\<exists>r. chunk_loop step np fin pktSize cur bs s = Some r"
proof (induction "length bs" arbitrary: cur bs s rule: less_induct)
  case less
  let ?a = "if cur + 1 = np \<and> 0 < fin then fin else pktSize"
  have a: "0 < ?a" using assms(1) by simp
  show ?case
  proof (cases "int (length bs) < ?a")
    case False
    obtain s' where s': "step (take (nat ?a) bs) s = Some s'" using assms(2) by blast
    have "length (drop (nat ?a) bs) < length bs" using False a by simp
    then obtain r where "chunk_loop step np fin pktSize (cur + 1) (drop (nat ?a) bs) s' = Some r"
      using less by blast
    then show ?thesis using a False s' by (subst chunk_loop.simps) (auto simp: Let_def)
  qed (use a in \<open>subst chunk_loop.simps, simp add: Let_def\<close>)
qed

lemma field_16:
  assumes "0 \<le> i" and "i < 2 ^ 31"
  shows "\<exists>w. pad_left 16 48 (to_string i) = Inr w \<and> length w = 16 \<and> stoi w = Inr i \<and> 0 \<notin> set w"
proof -
  obtain w where w: "pad_left 16 48 (to_string i) = Inr w" "length w = 16" "stoi w = Inr i"
    using stoi_pad_nonneg[OF assms] by blast
  have "0 \<notin> set w" using w(1) assms(1)
    by (auto simp: pad_left_def to_string_def is_digit_def split: if_splits dest!: dec_digits_digits)
  then show ?thesis using w by blast
qed

lemma to_string_1: "to_string 1 = [49]"
  by (simp add: to_string_def dec_digits.simps)

lemma pad_protocol:
  "protocolType = GBN \<or> protocolType = SR \<Longrightarrow>
   \<exists>pr. pad_left 3 32 protocolType = Inr pr \<and> length pr = 3 \<and> 0 \<notin> set pr \<and>
        pr = (if protocolType = GBN then GBN else 32 # SR)"
  by (auto simp: pad_left_def GBN_def SR_def)

lemma c_str_nul_terminated: "0 \<notin> set xs \<Longrightarrow> c_str (xs @ [0]) = Inr xs"
proof -
  assume a: "0 \<notin> set xs"
  have "takeWhile (\<lambda>c. c \<noteq> 0) (xs @ [0]) = xs @ takeWhile (\<lambda>c. c \<noteq> 0) [0 :: byte]"
    by (rule takeWhile_append2) (use a in auto)
  then show ?thesis by (simp add: c_str_def)
qed

lemma readInitialPacket_payload:
  assumes l: "length w1 = 16" "length w2 = 16" "length w3 = 16" "length w4 = 16" "length pr = 3"
      "length w6 = 16"
    and z: "0 \<notin> set (w1 @ w2 @ w3 @ w4 @ pr @ w6 @ name)"
    and v: "stoi w1 = Inr fs" "stoi w2 = Inr np" "stoi w3 = Inr ps" "stoi w4 = Inr ws" "stoi w6 = Inr sr"
  shows "readInitialPacket (w1 @ w2 @ w3 @ w4 @ pr @ w6 @ name @ [0]) r =
           Inr (r\<lparr>fileSize := fs, numPackets := np, packetSize := ps, slidingWindowSize_r := ws,
                  protocol := pr, seqNumRange_r := sr, outputFileName := name, senderFile := []\<rparr>)"
proof -
  have c: "c_str (w1 @ w2 @ w3 @ w4 @ pr @ w6 @ name @ [0]) = Inr (w1 @ w2 @ w3 @ w4 @ pr @ w6 @ name)"
    using c_str_nul_terminated[OF z] by simp
  show ?thesis
    unfolding readInitialPacket_def c using l v by (simp add: stoi_at_def cpp_substr_def)
qed

lemma to_int32_id: "in_signed_range 32 x \<Longrightarrow> to_int32 x = x"
  by (simp add: to_int32_def in_signed_range_def int_word_sint)

lemma await_ping_some:
  "0 < length (filter is_ping replies) \<Longrightarrow>
   \<exists>rest. await_ping replies = Some rest \<and>
          length (filter is_ping rest) = length (filter is_ping replies) - 1"
  by (induction replies) auto

lemma add_round_ok:
  assumes "0 \<le> m" and "0 \<le> tot" and "tot + int (max 1 ms) * m < 2 ^ 31"
  shows "add_round m ms tot = Inr (tot + int (max 1 ms) * m)"
proof (cases "ms = 0")
  case False
  have p: "0 \<le> int ms * m" using assms(1) by simp
  have e: "int (max 1 ms) * m = int ms * m" using False by (simp add: max_def)
  have "tot + int ms * m < 2 ^ 31" using assms(3)[unfolded e] by simp
  then have r: "in_signed_range 32 (tot + int ms * m)" "in_signed_range 64 (tot + int ms * m)"
      "in_signed_range 64 (int ms * m)"
    using p assms(2) by (simp_all add: in_signed_range_def)
  have "to_int32 (tot + int ms * m) = tot + int ms * m" using r(1) by (rule to_int32_id)
  then show ?thesis using False r(2,3) e by (simp add: add_round_def Let_def)
qed (use assms in \<open>simp add: add_round_def in_signed_range_def\<close>)

lemma sum_rounds_nonneg: "0 \<le> m \<Longrightarrow> 0 \<le> (\<Sum>x\<leftarrow>xs. int (max 1 x) * m)"
  by (induction xs) simp_all

lemma rtt_rounds_ok:
  assumes "0 \<le> m" and "0 \<le> tot" and "2 * k \<le> length clock"
    and "k \<le> length (filter is_ping replies)"
    and "tot + (\<Sum>x\<leftarrow>take k (round_ms clock). int (max 1 x) * m) < 2 ^ 31"
  shows "\<exists>rest. rtt_rounds k m clock replies tot =
           Some (Inr (tot + (\<Sum>x\<leftarrow>take k (round_ms clock). int (max 1 x) * m), rest)) \<and>
         length (filter is_ping replies) - k \<le> length (filter is_ping rest)"
  using assms(2-5)
proof (induction k arbitrary: clock replies tot)
  case (Suc k)
  obtain t0 t1 cl where c: "clock = t0 # t1 # cl" using Suc.prems(2)
    by (metis Suc_le_length_iff mult_Suc_right add_2_eq_Suc numeral_2_eq_2 mult_2)
  obtain rest where r: "await_ping replies = Some rest"
      "length (filter is_ping rest) = length (filter is_ping replies) - 1"
  proof -
    have "0 < length (filter is_ping replies)" using Suc.prems(3) by linarith
    then show ?thesis using await_ping_some that by blast
  qed
  let ?ms = "(t1 - t0) div 1000000"
  let ?S = "\<Sum>x\<leftarrow>take k (round_ms cl). int (max 1 x) * m"
  have S: "0 \<le> ?S" using sum_rounds_nonneg[OF assms(1)] .
  have lt: "tot + int (max 1 ?ms) * m + ?S < 2 ^ 31" using Suc.prems(4) c by (simp add: add.assoc)
  have a: "add_round m ?ms tot = Inr (tot + int (max 1 ?ms) * m)"
    by (rule add_round_ok[OF assms(1) Suc.prems(1)]) (use lt S in linarith)
  have t: "0 \<le> tot + int (max 1 ?ms) * m" using Suc.prems(1) assms(1) by simp
  have k1: "2 * k \<le> length cl" using Suc.prems(2) c by simp
  have k2: "k \<le> length (filter is_ping rest)" using r(2) Suc.prems(3) by simp
  obtain rest' where "rtt_rounds k m cl rest (tot + int (max 1 ?ms) * m) =
      Some (Inr (tot + int (max 1 ?ms) * m + ?S, rest'))"
      "length (filter is_ping rest) - k \<le> length (filter is_ping rest')"
    using Suc.IH[OF t k1 k2 lt] by blast
  then show ?case using c r a by (simp add: add.assoc)
qed simp

text \<open>The rounds run one after the other: the first \<open>k\<close>, then the rest from where they left
  the clock, the strings and the total.\<close>

lemma rtt_rounds_split:
  "2 * k \<le> length clock \<Longrightarrow>
   rtt_rounds (k + j) m clock replies tot =
     (case rtt_rounds k m clock replies tot of
        None \<Rightarrow> None
      | Some (Inl e) \<Rightarrow> Some (Inl e)
      | Some (Inr (t, rest)) \<Rightarrow> rtt_rounds j m (drop (2 * k) clock) rest t)"
proof (induction k arbitrary: clock replies tot)
  case (Suc k)
  obtain t0 t1 cl where c: "clock = t0 # t1 # cl" using Suc.prems
    by (metis Suc_le_length_iff mult_Suc_right add_2_eq_Suc numeral_2_eq_2 mult_2)
  have "2 * k \<le> length cl" using Suc.prems c by simp
  then show ?case using Suc.IH c by (auto split: option.split sum.split)
qed simp

lemma sdiv_neg: "k < 0 \<Longrightarrow> k sdiv (3::int) \<le> 0"
  by (simp add: signed_divide_int_def sgn_if)

lemma to_int32_wrap: "2 ^ 31 \<le> x \<Longrightarrow> x < 2 ^ 32 \<Longrightarrow> to_int32 x = x - 2 ^ 32"
proof -
  assume "2 ^ 31 \<le> x" "x < 2 ^ 32"
  then have "(x + 2 ^ 31) mod 2 ^ 32 = x + 2 ^ 31 - 2 ^ 32"
    by (intro mod_once) simp_all
  then show ?thesis unfolding to_int32_def int_word_sint by simp
qed

lemma sdiv_nonneg: "0 \<le> k \<Longrightarrow> 0 < (l::int) \<Longrightarrow> k sdiv l = k div l"
  by (auto simp: signed_divide_int_eq_divide_int sgn_if)

lemma await_ack_skip: "await_ack rng (replicate k [] @ ss) = await_ack rng ss"
  by (induction k) simp_all

lemma fold_opt_total: "\<forall>c s. step c s \<noteq> None \<Longrightarrow> \<exists>s'. fold_opt step cs s = Some s'"
  by (induction cs arbitrary: s) (auto split: option.split)

text \<open>The handshake frame sets the fresh receiver up: every field read back, the buffer,
  the accepted set and the file at their post-handshake values.\<close>

lemma handshake_frame:
  assumes "0 \<le> fs \<and> fs < 2 ^ 31" and "0 \<le> np \<and> np < 2 ^ 31" and "0 \<le> ps \<and> ps < 2 ^ 31"
    and "0 \<le> ws \<and> ws < 2 ^ 31" and "0 \<le> sr \<and> sr < 2 ^ 31"
    and "proto = GBN \<or> proto = SR" and "0 \<notin> set name"
  shows "\<exists>d r. initialPayload name fs np ps ws proto sr = Inr d \<and>
           receiver_step (createPacketString False (initialPacket d)) init_receiver = Inr (r, False) \<and>
           fileSize r = fs \<and> numPackets r = np \<and> packetSize r = ps \<and>
           slidingWindowSize_r r = (if proto = GBN then 1 else ws) \<and> seqNumRange_r r = sr \<and>
           protocol r = (if proto = GBN then GBN else 32 # SR) \<and> outputFileName r = name \<and>
           curPktNum r = 1 \<and> packetBuffer r = [] \<and> donePackets r = {0} \<and> senderFile r = []"
proof -
  obtain w1 where w1: "pad_left 16 48 (to_string fs) = Inr w1" "length w1 = 16" "stoi w1 = Inr fs" "0 \<notin> set w1"
    using field_16 assms(1) by blast
  obtain w2 where w2: "pad_left 16 48 (to_string np) = Inr w2" "length w2 = 16" "stoi w2 = Inr np" "0 \<notin> set w2"
    using field_16 assms(2) by blast
  obtain w3 where w3: "pad_left 16 48 (to_string ps) = Inr w3" "length w3 = 16" "stoi w3 = Inr ps" "0 \<notin> set w3"
    using field_16 assms(3) by blast
  let ?ws = "if proto = GBN then 1 else ws"
  have "0 \<le> ?ws \<and> ?ws < 2 ^ 31" using assms(4) by simp
  then obtain w4 where w4: "pad_left 16 48 (to_string ?ws) = Inr w4" "length w4 = 16" "stoi w4 = Inr ?ws" "0 \<notin> set w4"
    using field_16 by blast
  have w4': "pad_left 16 48 (if proto = GBN then [49] else to_string ws) = Inr w4"
    using w4(1) by (simp add: to_string_1 split: if_splits)
  obtain w6 where w6: "pad_left 16 48 (to_string sr) = Inr w6" "length w6 = 16" "stoi w6 = Inr sr" "0 \<notin> set w6"
    using field_16 assms(5) by blast
  obtain pr where pr: "pad_left 3 32 proto = Inr pr" "length pr = 3" "0 \<notin> set pr"
      "pr = (if proto = GBN then GBN else 32 # SR)"
    using pad_protocol[OF assms(6)] by blast
  let ?d = "w1 @ w2 @ w3 @ w4 @ pr @ w6 @ name @ [0]"
  have d: "initialPayload name fs np ps ws proto sr = Inr ?d"
    using w1(1) w2(1) w3(1) w4' w6(1) pr(1) by (simp add: initialPayload_def)
  have rd: "readInitialPacket ?d r = Inr (r\<lparr>fileSize := fs, numPackets := np, packetSize := ps,
      slidingWindowSize_r := ?ws, protocol := pr, seqNumRange_r := sr, outputFileName := name,
      senderFile := []\<rparr>)" for r
    by (rule readInitialPacket_payload)
       (use w1 w2 w3 w4 w6 pr assms(7) in simp_all)
  let ?p = "new_packet\<lparr>seqNum := 0, ack := 0, checksum := int (unat (createChecksum ?d)),
              data := ?d, seqNumRange := 0\<rparr>"
  have v: "isValidChecksum ?p" "seqNum ?p \<notin> donePackets init_receiver" "seqNum ?p = 0"
    by (simp_all add: isValidChecksum_def init_receiver_def)
  have step: "receiver_step (createPacketString False (initialPacket ?d)) init_receiver =
      receivePacket ?p init_receiver"
    by (simp add: receiver_step_frame initialPacket_def new_packet_def init_receiver_def)
  have "\<exists>r. receivePacket ?p init_receiver = Inr (r, False) \<and>
           fileSize r = fs \<and> numPackets r = np \<and> packetSize r = ps \<and>
           slidingWindowSize_r r = ?ws \<and> seqNumRange_r r = sr \<and>
           protocol r = pr \<and> outputFileName r = name \<and> curPktNum r = 1 \<and>
           packetBuffer r = [] \<and> donePackets r = {0} \<and> senderFile r = []"
    unfolding receivePacket_handshake[OF v] by (simp add: rd init_receiver_def sendAckMessage_def)
  then show ?thesis using d step pr(4) by auto
qed

section \<open>Properties\<close>

text \<open>C6: Handshake round trip: for a file size, packet count, packet size, window size and
  sequence range in \<open>[0, 2^31)\<close>, protocol \<^verbatim>\<open>GBN\<close> or \<^verbatim>\<open>SR\<close> and a file name without
  NUL, the payload of \<^verbatim>\<open>sendInitialFilePacket\<close> is built without exception and the fresh
  receiver, handling its frame, reads back every field (the window as 1 under Go-Back-N,
  the protocol with its padding space) and expects packet 1.\<close>

theorem handshake_roundtrip:
  assumes "0 \<le> fs \<and> fs < 2 ^ 31" and "0 \<le> np \<and> np < 2 ^ 31" and "0 \<le> ps \<and> ps < 2 ^ 31"
    and "0 \<le> ws \<and> ws < 2 ^ 31" and "0 \<le> sr \<and> sr < 2 ^ 31"
    and "proto = GBN \<or> proto = SR" and "0 \<notin> set name"
  shows "\<exists>d r. initialPayload name fs np ps ws proto sr = Inr d \<and>
           receiver_step (createPacketString False (initialPacket d)) init_receiver = Inr (r, False) \<and>
           fileSize r = fs \<and> numPackets r = np \<and> packetSize r = ps \<and>
           slidingWindowSize_r r = (if proto = GBN then 1 else ws) \<and> seqNumRange_r r = sr \<and>
           protocol r = (if proto = GBN then GBN else 32 # SR) \<and> outputFileName r = name \<and>
           curPktNum r = 1"
  using handshake_frame[OF assms] by blast

lemma handshake_roundtrip_witness:
  "\<exists>d r. initialPayload [111] 10 4 4 3 SR 0 = Inr d \<and>
     receiver_step (createPacketString False (initialPacket d)) init_receiver = Inr (r, False) \<and>
     fileSize r = 10 \<and> numPackets r = 4 \<and> packetSize r = 4 \<and> slidingWindowSize_r r = 3 \<and>
     seqNumRange_r r = 0 \<and> protocol r = [32, 83, 82] \<and> outputFileName r = [111] \<and> curPktNum r = 1"
  using handshake_roundtrip[of 10 4 4 3 0 SR "[111]"] by (simp add: GBN_def SR_def)

text \<open>C34: The handshake wait accepts any reply: after empty reads, the first frame ends
  \<^verbatim>\<open>sendInitialFilePacket\<close> whatever its ack code, a NACK included.\<close>

theorem handshake_accepts_any_reply:
  assumes "initialPayload name fs np ps ws proto sr = Inr d"
  shows "sendInitialFilePacket name fs np ps ws proto sr (replicate k [] @ createPacketString False a # rest) =
           Some (Inr (sendData (createPacketString False (initialPacket d)),
                      new_packet\<lparr>seqNum := seqNum a mod 2 ^ 32, ack := ack a mod 4,
                                 checksum := int (unat (createChecksum (data a))),
                                 data := data a, seqNumRange := sr\<rparr>))"
proof -
  have "0 < length (createPacketString False a)" by (simp add: createPacketString_def)
  then show ?thesis using assms
    by (simp add: sendInitialFilePacket_def await_ack_skip reversePacket_createPacketString)
qed

lemma handshake_accepts_any_reply_witness:
  "\<exists>d a. initialPayload [111] 10 4 4 3 SR 0 = Inr d \<and>
     sendInitialFilePacket [111] 10 4 4 3 SR 0 [[], createPacketString False (ackPacket 0 False init_receiver)] =
       Some (Inr (sendData (createPacketString False (initialPacket d)), a)) \<and> ack a = ACK_FAIL"
proof -
  obtain d where d: "initialPayload [111] 10 4 4 3 SR 0 = Inr d"
    by (simp add: initialPayload_def pad_left_def to_string_def dec_digits.simps SR_def GBN_def)
  show ?thesis
    using d handshake_accepts_any_reply[OF d, of 1 "ackPacket 0 False init_receiver" "[]"]
    by (simp add: ackPacket_def ACK_FAIL_def new_packet_def)
qed

text \<open>C35: The handshake wait returns exactly when some read is non-empty: on a closed socket,
  whose reads are all empty, it spins forever.\<close>

theorem await_ack_returns:
  "(\<exists>y. await_ack rng replies = Some y) \<longleftrightarrow> (\<exists>s\<in>set replies. s \<noteq> [])"
  by (induction replies) auto

lemma await_ack_returns_witness:
  "await_ack 0 [[], []] = None \<and> (\<exists>y. await_ack 0 [[], [49]] = Some y)"
  using await_ack_returns[of 0 "[[], []]"] await_ack_returns[of 0 "[[], [49]]"] by auto

text \<open>C33: Dynamic timeout (bounds and refinement): with a factor \<open>m \<ge> 0\<close>, three echoes
  among the replies, six clock readings, and a total of the rounds below \<open>2^31\<close>,
  \<^verbatim>\<open>calculateDynamicTimeout\<close> returns, without overflow, the spec's timeout: the rounds'
  millisecond counts (at least 1 each) times \<open>m\<close>, averaged, at least 1.\<close>

theorem dynamic_timeout_spec:
  assumes "0 \<le> m" and "6 \<le> length clock" and "3 \<le> length (filter is_ping replies)"
    and "(\<Sum>x\<leftarrow>take 3 (round_ms clock). int (max 1 x) * m) < 2 ^ 31"
  shows "\<exists>rest. calculateDynamicTimeout m clock replies =
           Some (Inr (spec_timeout m (take 3 (round_ms clock)), rest))"
proof -
  obtain rest where r: "rtt_rounds 3 m clock replies 0 =
      Some (Inr (\<Sum>x\<leftarrow>take 3 (round_ms clock). int (max 1 x) * m, rest))"
    using rtt_rounds_ok[OF assms(1) order_refl, of 3 clock replies] assms(2-4) by auto
  have "0 \<le> (\<Sum>x\<leftarrow>take 3 (round_ms clock). int (max 1 x) * m)"
    using sum_rounds_nonneg[OF assms(1)] .
  then show ?thesis using r
    by (simp add: calculateDynamicTimeout_def spec_timeout_def sdiv_nonneg)
qed

lemma dynamic_timeout_spec_witness:
  "0 \<le> (2::int) \<and> 6 \<le> length [0, 10000000, 10000000, 30000000, 30000000, 60000000::nat] \<and>
   3 \<le> length (filter is_ping [PING, PING, PING]) \<and>
   (\<Sum>x\<leftarrow>take 3 (round_ms [0, 10000000, 10000000, 30000000, 30000000, 60000000]). int (max 1 x) * 2) < 2 ^ 31 \<and>
   (\<exists>rest. calculateDynamicTimeout 2 [0, 10000000, 10000000, 30000000, 30000000, 60000000]
      [PING, PING, PING] = Some (Inr (40, rest)))"
proof -
  have "spec_timeout 2 (take 3 (round_ms [0, 10000000, 10000000, 30000000, 30000000, 60000000])) = 40"
    by (simp add: spec_timeout_def)
  then show ?thesis
    using dynamic_timeout_spec[of 2 "[0, 10000000, 10000000, 30000000, 30000000, 60000000]" "[PING, PING, PING]"]
    by (simp add: is_ping_def PING_def)
qed

text \<open>C38: Overflow of the round total: when the first two rounds fit in \<^verbatim>\<open>int\<close> and the
  third takes the total \<open>T\<close> to between \<open>2^31\<close> and \<open>2^32\<close>, the conversion to
  \<^verbatim>\<open>int\<close> wraps it to \<open>T - 2^32 < 0\<close> and the timeout is 1 ms, where the spec's formula
  gives at least \<open>2^31 div 3\<close> ms.\<close>

theorem dynamic_timeout_wraps:
  assumes "0 \<le> m" and "6 \<le> length clock" and "3 \<le> length (filter is_ping replies)"
    and "0 < round_ms clock ! 2"
    and "(\<Sum>x\<leftarrow>take 2 (round_ms clock). int (max 1 x) * m) < 2 ^ 31"
    and "2 ^ 31 \<le> (\<Sum>x\<leftarrow>take 3 (round_ms clock). int (max 1 x) * m)"
    and "(\<Sum>x\<leftarrow>take 3 (round_ms clock). int (max 1 x) * m) < 2 ^ 32"
  shows "(\<exists>rest. calculateDynamicTimeout m clock replies = Some (Inr (1, rest))) \<and>
         2 ^ 31 div 3 \<le> spec_timeout m (take 3 (round_ms clock))"
proof -
  obtain t0 t1 t2 t3 t4 t5 cl where c: "clock = t0 # t1 # t2 # t3 # t4 # t5 # cl"
    using assms(2) by (auto simp: Suc_le_length_iff numeral_eq_Suc)
  let ?S2 = "\<Sum>x\<leftarrow>take 2 (round_ms clock). int (max 1 x) * m"
  let ?ms = "(t5 - t4) div 1000000"
  let ?S3 = "?S2 + int ?ms * m"
  have ms: "0 < ?ms" using assms(4) c by simp
  have s3: "(\<Sum>x\<leftarrow>take 3 (round_ms clock). int (max 1 x) * m) = ?S3"
    using ms c by (simp add: max_def)
  obtain rest where r: "rtt_rounds 2 m clock replies 0 = Some (Inr (?S2, rest))"
      "length (filter is_ping replies) - 2 \<le> length (filter is_ping rest)"
    using rtt_rounds_ok[OF assms(1) order_refl, of 2 clock replies] assms(2,3,5) by auto
  have "0 < length (filter is_ping rest)" using r(2) assms(3) by linarith
  then obtain rest' where r': "await_ping rest = Some rest'"
    using await_ping_some[of rest] by blast
  have p: "0 \<le> int ?ms * m" "0 \<le> ?S2" using assms(1) sum_rounds_nonneg[OF assms(1)] by simp_all
  have "in_signed_range 64 (int ?ms * m)" "in_signed_range 64 ?S3"
    using p assms(6,7) s3 by (simp_all add: in_signed_range_def)
  then have a: "add_round m ?ms ?S2 = Inr (?S3 - 2 ^ 32)"
    using ms to_int32_wrap[of ?S3] assms(6,7) s3 by (simp add: add_round_def Let_def)
  have "rtt_rounds (2 + 1) m clock replies 0 = Some (Inr (?S3 - 2 ^ 32, rest'))"
    using rtt_rounds_split[of 2 clock 1 m replies 0] assms(2) r(1) r' a c by simp
  then have "calculateDynamicTimeout m clock replies = Some (Inr (1, rest'))"
    using sdiv_neg[of "?S3 - 2 ^ 32"] assms(7) s3
    by (simp add: calculateDynamicTimeout_def numeral_3_eq_3 max_def)
  moreover have "2 ^ 31 div 3 \<le> spec_timeout m (take 3 (round_ms clock))"
    using zdiv_mono1[OF assms(6), of 3] by (simp add: spec_timeout_def)
  ultimately show ?thesis by blast
qed

lemma dynamic_timeout_wraps_witness:
  "(\<exists>rest. calculateDynamicTimeout 1000000000 [0, 1000000, 1000000, 2000000, 2000000, 3000000]
      [PING, PING, PING] = Some (Inr (1, rest))) \<and>
   2 ^ 31 div 3 \<le> spec_timeout 1000000000 (take 3 (round_ms [0, 1000000, 1000000, 2000000, 2000000, 3000000]))"
  using dynamic_timeout_wraps[of 1000000000 "[0, 1000000, 1000000, 2000000, 2000000, 3000000]"
      "[PING, PING, PING]"]
  by (simp add: is_ping_def PING_def)

text \<open>C7: Chunking: \<^verbatim>\<open>int fileSize = inFile.tellg()\<close> keeps the file's length
  modulo \<open>2^32\<close>; when that is some \<open>k\<close> with \<open>0 < k < 2^31 - 1\<close>, the chunk loop of
  \<^verbatim>\<open>main\<close> hands the engine exactly the reference chunks of the first \<open>k\<close> bytes,
  in order; they concatenate to those bytes and each holds between 1 and \<open>packetSize\<close>
  bytes.  A file of fewer than \<open>2^31 - 1\<close> bytes is sent whole (\<open>k\<close> its length);
  one of \<open>2^32 + k\<close> bytes is cut to its first \<open>k\<close>.\<close>

theorem send_file_chunks:
  assumes "0 < pktSize" and "int (length bs) mod 2 ^ 32 = int k" and "0 < k" and "k < 2 ^ 31 - 1"
  shows "send_file step pktSize (Some bs) s =
           map_option Inr (fold_opt step (file_chunks (nat pktSize) (take k bs)) s) \<and>
         concat (file_chunks (nat pktSize) (take k bs)) = take k bs \<and>
         (\<forall>c\<in>set (file_chunks (nat pktSize) (take k bs)). c \<noteq> [] \<and> length c \<le> nat pktSize)"
  using send_file_eq[OF assms] concat_file_chunks[of "nat pktSize" "take k bs"]
    file_chunks_bounds[of "nat pktSize" _ "take k bs"] assms(1) by simp

lemma send_file_chunks_witness:
  "send_file (\<lambda>c s. Some (s @ [c])) 2 (Some [1, 2, 3, 4, 5]) [] = Some (Inr [[1, 2], [3, 4], [5]])"
  using send_file_chunks[of 2 "[1, 2, 3, 4, 5]" 5 "\<lambda>c s. Some (s @ [c])" "[]"]
  by (simp add: file_chunks.simps)

text \<open>C39: A file whose length modulo \<open>2^32\<close> is at least \<open>2^31\<close> has a negative
  \<^verbatim>\<open>int\<close> size, and \<^verbatim>\<open>main\<close> exits with \<^verbatim>\<open>"Cannot Read File"\<close>.\<close>

theorem send_file_too_large:
  "2 ^ 31 \<le> int (length bs) mod 2 ^ 32 \<Longrightarrow>
   send_file step pktSize (Some bs) s = Some (Inl Cannot_Read_File)"
  using to_int32_size(2)[of "length bs"] by (simp add: send_file_def)

lemma send_file_too_large_witness:
  "send_file (\<lambda>c s. Some s) 1 (Some (replicate (2 ^ 31) 0)) (0::nat) = Some (Inl Cannot_Read_File)"
  using send_file_too_large[of "replicate (2 ^ 31) 0" "\<lambda>c s. Some s" 1 0] by simp

text \<open>C37: An empty file is not sent: after the handshake, the first read fails and
  \<^verbatim>\<open>main\<close> exits with \<^verbatim>\<open>"Read Failed"\<close>.\<close>

theorem send_file_empty:
  "0 < pktSize \<Longrightarrow> send_file step pktSize (Some []) s = Some (Inl Read_Failed)"
  by (simp add: send_file_def packet_count_def Let_def chunk_loop.simps to_int32_def
      in_signed_range_def)

lemma send_file_empty_witness: "send_file (\<lambda>c s. Some s) 4 (Some []) (0::nat) = Some (Inl Read_Failed)"
  using send_file_empty[of 4 "\<lambda>c s. Some s" 0] by simp

text \<open>C36: Termination of the chunk loop: with a positive packet size, \<^verbatim>\<open>main\<close>'s loop over
  the file returns whenever the processing of each chunk returns.\<close>

theorem send_file_returns:
  assumes "0 < pktSize" and "\<forall>c s. step c s \<noteq> None"
  shows "\<exists>r. send_file step pktSize (Some bs) s = Some r"
proof -
  have "\<forall>np fin. \<exists>r. chunk_loop step np fin pktSize 1 bs s = Some r"
    using chunk_loop_returns[OF assms] by blast
  then show ?thesis by (auto simp: send_file_def Let_def split: sum.split)
qed

lemma send_file_returns_witness:
  "\<exists>r. send_file (\<lambda>c s. Some (s @ [c])) 2 (Some [1, 2, 3]) [] = Some r"
  using send_file_returns[of 2 "\<lambda>c s. Some (s @ [c])" "[1, 2, 3]" "[]"] by simp

end
