(* ===== verification/Protocol.thy ===== *)
theory Protocol
  imports Session "HOL-Library.Sublist"
begin

text \<open>
  The composition of the two engines over the transport: what the sender puts on the
  stream and what the receiver makes of it.  A data packet \<^emph>\<open>carries\<close> its chunk when
  its number \<open>k\<close> is in \<open>1 .. length chunks\<close> and its payload is chunk \<open>k\<close> of the file
  (the numbering of \<^verbatim>\<open>main\<close>, where chunk \<open>i\<close> gets sequence number \<open>i + 1\<close>).  The
  lemmas show that in every reachable sender state each in-flight packet and each frame
  handed to \<^verbatim>\<open>sendData\<close> carries its chunk, that such a frame decodes to a packet the
  receiver's invariant accepts as faithful, and that the receiver loop keeps its
  invariant on any sequence of such frames: reordered, duplicated or lost.
\<close>

section \<open>Definitions\<close>

definition carries :: "wire list \<Rightarrow> packet \<Rightarrow> bool" where
  "carries chunks p \<longleftrightarrow>
     1 \<le> seqNum p \<and> seqNum p \<le> length chunks \<and> data p = chunks ! (seqNum p - 1)"

text \<open>The chunk a sequence number names, empty outside the file.\<close>

definition file_chunk :: "wire list \<Rightarrow> nat \<Rightarrow> wire" where
  "file_chunk chunks k = (if 1 \<le> k \<and> k \<le> length chunks then chunks ! (k - 1) else [])"

definition frame_ok :: "wire list \<Rightarrow> wire \<Rightarrow> bool" where
  "frame_ok chunks f \<longleftrightarrow> (\<exists>b p. carries chunks p \<and> f = createPacketString b p)"

definition sender_carries :: "wire list \<Rightarrow> sender \<Rightarrow> bool" where
  "sender_carries chunks s \<longleftrightarrow>
     (\<forall>p\<in>set (packetList s). carries chunks p) \<and> (\<forall>f\<in>set (sent s). frame_ok chunks f)"

section \<open>Lemmas\<close>

lemma carries_setTimeout [simp]: "carries chunks (setTimeout now t p) = carries chunks p"
  by (simp add: carries_def setTimeout_def)

lemma carries_ack [simp]: "carries chunks (p\<lparr>ack := a\<rparr>) = carries chunks p"
  by (simp add: carries_def)

lemma frame_ok_createPacketString: "carries chunks p \<Longrightarrow> frame_ok chunks (createPacketString b p)"
  by (auto simp: frame_ok_def)

lemma scan_packets_carries:
  "scan_packets now s ps = (s', ps') \<Longrightarrow> \<forall>p\<in>set ps. carries chunks p \<Longrightarrow>
   \<forall>f\<in>set (sent s). frame_ok chunks f \<Longrightarrow>
   (\<forall>f\<in>set (sent s'). frame_ok chunks f) \<and> (\<forall>p\<in>set ps'. carries chunks p)"
proof (induction ps arbitrary: s s' ps')
  case (Cons p ps)
  show ?case
  proof (cases "seqNum p = slidingWindowFront s \<and> ack p = 1")
    case True
    then show ?thesis using Cons by simp
  next
    case nf: False
    show ?thesis
    proof (cases "hasTimedOut now p")
      case True
      obtain s2 ps2 where r: "scan_packets now (s\<lparr>sent := sent s @ [createPacketString False
          (setTimeout now (timeoutMS s) p)], numRetrans := Suc (numRetrans s)\<rparr>) ps = (s2, ps2)"
        by fastforce
      then show ?thesis using Cons.IH[OF r] Cons.prems nf True
        by (auto simp: Let_def frame_ok_createPacketString)
    next
      case False
      obtain s2 ps2 where r: "scan_packets now s ps = (s2, ps2)" by fastforce
      then show ?thesis using Cons.IH[OF r] Cons.prems nf False by (auto simp: Let_def)
    qed
  qed
qed simp

lemma check_pass_carries: "sender_carries chunks s \<Longrightarrow> sender_carries chunks (check_pass now s)"
  unfolding sender_carries_def check_pass_def
  by (auto split: prod.splits dest!: scan_packets_carries[where chunks = chunks])

lemma readACK_carries: "sender_carries chunks s \<Longrightarrow> sender_carries chunks (readACK now rlost a s)"
proof (cases "findPacketBySeqNum (seqNum a) (packetList s)")
  case (Some i)
  assume c: "sender_carries chunks s"
  have i: "i < length (packetList s)" using Some by (simp add: findPacketBySeqNum_Some)
  then have p: "carries chunks (packetList s ! i)" using c by (simp add: sender_carries_def)
  have u: "\<forall>q\<in>set ((packetList s)[i := x]). carries chunks q" if "carries chunks x" for x
    using c that by (auto simp: sender_carries_def dest: set_update_subset_insert[THEN subsetD])
  have u1: "\<forall>q\<in>set ((packetList s)[i := setTimeout now 500 (packetList s ! i)\<lparr>ack := 1\<rparr>]). carries chunks q"
    and u2: "\<forall>q\<in>set ((packetList s)[i := setTimeout now 500 (packetList s ! i)]). carries chunks q"
    by (rule u, simp add: p)+
  show ?thesis using Some c p u1 u2
    by (auto simp: readACK_def Let_def sender_carries_def frame_ok_createPacketString split: prod.splits)
qed (auto simp: readACK_def Let_def sender_carries_def split: prod.splits)

lemma processChunkData_carries:
  "sender_carries chunks s \<Longrightarrow> curSeqNum s < length chunks \<Longrightarrow>
   sender_carries chunks (processChunkData now rnack rdrop (chunks ! curSeqNum s) s)"
  by (auto simp: processChunkData_def Let_def sender_carries_def carries_def setTimeout_def
      new_packet_def frame_ok_createPacketString split: prod.splits)

lemma sender_reach_carries: "sender_reach chunks pc s \<Longrightarrow> sender_carries chunks s"
proof (induction rule: sender_reach.induct)
  case start
  then show ?case by (simp add: sender_carries_def init_sender_def)
qed (simp_all add: check_pass_carries readACK_carries processChunkData_carries)

lemma frame_ok_faithful:
  assumes "frame_ok chunks f" and "length chunks < 2 ^ 32"
  shows "f \<noteq> [] \<and> (\<forall>p. reversePacket f new_packet = Inr p \<longrightarrow> faithful (file_chunk chunks) p)"
proof -
  obtain b q where q: "carries chunks q" "f = createPacketString b q"
    using assms(1) by (auto simp: frame_ok_def)
  have "seqNum q < 2 ^ 32" using q(1) assms(2) by (simp add: carries_def)
  then have "\<forall>p. reversePacket f new_packet = Inr p \<longrightarrow> faithful (file_chunk chunks) p"
    using q by (auto simp: reversePacket_createPacketString faithful_def file_chunk_def carries_def)
  moreover have "length f \<noteq> 0" using q(2) by (simp del: length_0_conv add: createPacketString_def)
  ultimately show ?thesis by auto
qed

lemma concat_file_chunk: "concat (map (file_chunk chunks) [1..<Suc n]) = concat (take n chunks)"
proof (induction n)
  case (Suc n)
  have "[1..<Suc (Suc n)] = [1..<Suc n] @ [Suc n]" by simp
  then show ?case using Suc by (simp add: file_chunk_def take_Suc_conv_app_nth)
qed simp

lemma rcv_inv_file:
  assumes "rcv_inv (file_chunk chunks) r"
  shows "senderFile r = concat (take (nat (curPktNum r) - 1) chunks)"
proof -
  have "[1..<nat (curPktNum r)] = [1..<Suc (nat (curPktNum r) - 1)]" using assms
    by (simp add: rcv_inv_def)
  then show ?thesis using assms concat_file_chunk by (simp add: rcv_inv_def)
qed

lemma prefix_concat_take: "prefix (concat (take n xs)) (concat xs)"
  by (metis append_take_drop_id concat_append prefixI)

text \<open>The receiver, fed any of the sender's frames, holds a prefix of the chunks, and the
  whole of them when it stops with the packet count of the handshake.\<close>

lemma transfer_prefix:
  assumes snd: "sender_reach chunks pc s" and len: "length chunks < 2 ^ 32"
    and inv: "rcv_inv (file_chunk chunks) r" and fr: "set frames \<subseteq> set (sent s)"
    and run: "receiver_loop frames r = Inr (r', stop)"
  shows "prefix (senderFile r') (concat chunks) \<and>
         (stop \<and> numPackets r = int (length chunks) + 1 \<longrightarrow> senderFile r' = concat chunks)"
proof -
  have "\<forall>f\<in>set frames. f \<noteq> [] \<and>
      (\<forall>p. reversePacket f new_packet = Inr p \<longrightarrow> faithful (file_chunk chunks) p)"
    using sender_reach_carries[OF snd] fr frame_ok_faithful[OF _ len] by (auto simp: sender_carries_def)
  then have r: "rcv_inv (file_chunk chunks) r' \<and> numPackets r' = numPackets r \<and>
      (stop \<longrightarrow> curPktNum r' = numPackets r')"
    using receiver_loop_inv[OF inv _ run] by blast
  then have f: "senderFile r' = concat (take (nat (curPktNum r') - 1) chunks)"
    using rcv_inv_file by blast
  show ?thesis using r f prefix_concat_take by auto
qed

text \<open>The receiver's state after the handshake frame satisfies the invariant for any
  chunking.\<close>

lemma rcv_inv_after_handshake:
  "curPktNum r = 1 \<Longrightarrow> packetBuffer r = [] \<Longrightarrow> donePackets r = {0} \<Longrightarrow> senderFile r = [] \<Longrightarrow>
   rcv_inv chunk r"
  by (simp add: rcv_inv_def)

end
