(* ===== verification/Display.thy ===== *)
theory Display
  imports Sender Receiver
begin

text \<open>
  The window displays of both programs: \<^verbatim>\<open>showSlidingWindow\<close> in
  \<^verbatim>\<open>src/sender.cpp\<close> and in \<^verbatim>\<open>src/receiver.cpp\<close> build the text
  \<^verbatim>\<open>Current window = [a, b, ...]\<close> in a loop over the window's numbers (each taken
  modulo the sequence range when there is one) and print it.  The text is the model's
  output; the loop is a \<open>function\<close> that terminates by the distance to its bound.  The
  lemma shows the loop equal to a reference that joins the rendered numbers with
  \<^verbatim>\<open>", "\<close>, and so what each display shows.
\<close>

section \<open>Definitions\<close>

text \<open>A C string literal as the bytes it denotes.\<close>

definition bytes_of :: "string \<Rightarrow> wire" where
  "bytes_of s = map (\<lambda>c. of_nat (of_char c)) s"

text \<open>The number shown for \<open>i\<close>: \<^verbatim>\<open>i % seqNumRange\<close> when the range is positive.\<close>

definition shown :: "int \<Rightarrow> int \<Rightarrow> int" where
  "shown seqRng i = (if 0 < seqRng then i smod seqRng else i)"

text \<open>
  \<^verbatim>\<open>for (int i = slidingWindowFront; i <= slidingWindowMax; i++)\<close>: append the shown
  number, and \<^verbatim>\<open>", "\<close> unless \<open>i\<close> is the last one.
\<close>

function window_loop :: "int \<Rightarrow> int \<Rightarrow> int \<Rightarrow> wire \<Rightarrow> wire" where
  "window_loop i slidingWindowMax seqRng windowDisplay =
     (if i \<le> slidingWindowMax then
        window_loop (i + 1) slidingWindowMax seqRng
          (windowDisplay @ to_string (shown seqRng i)
             @ (if i \<noteq> slidingWindowMax then bytes_of '', '' else []))
      else windowDisplay)"
  by pat_completeness auto
termination
  by (relation "measure (\<lambda>(i, m, _, _). nat (m + 1 - i))") auto

declare window_loop.simps [simp del]

text \<open>
  The sender's display: nothing when the window is empty (front past end), otherwise the
  numbers from the front for a window's length.
\<close>

definition showSlidingWindow :: "sender \<Rightarrow> wire option" where
  "showSlidingWindow s =
     (if slidingWindowEnd s < slidingWindowFront s then None
      else let slidingWindowMax = int (slidingWindowFront s) + int (slidingWindowSize s) - 1
           in Some (window_loop (int (slidingWindowFront s)) slidingWindowMax (seqRange s)
                      (bytes_of ''Current window = ['') @ bytes_of '']''))"

text \<open>
  The receiver's display: the window starts at \<^verbatim>\<open>curPktNum + 1\<close> and spans the
  window size of the handshake.
\<close>

definition showSlidingWindow_r :: "receiver \<Rightarrow> wire" where
  "showSlidingWindow_r r =
     (let slidingWindowFront = curPktNum r + 1;
          slidingWindowMax = slidingWindowFront + slidingWindowSize_r r - 1
      in window_loop slidingWindowFront slidingWindowMax (seqNumRange_r r)
           (bytes_of ''Current window = ['') @ bytes_of '']'')"

text \<open>The reference: the rendered numbers joined by a separator.\<close>

fun join :: "wire \<Rightarrow> wire list \<Rightarrow> wire" where
  "join sep [] = []"
| "join sep [x] = x"
| "join sep (x # y # xs) = x @ sep @ join sep (y # xs)"

section \<open>Lemmas\<close>

lemma join_Cons: "xs \<noteq> [] \<Longrightarrow> join sep (x # xs) = x @ sep @ join sep xs"
  by (cases xs) simp_all

lemma window_loop_join:
  "window_loop i m rng acc = acc @ join (bytes_of '', '') (map (\<lambda>k. to_string (shown rng k)) [i..m])"
proof (induction i m rng acc rule: window_loop.induct)
  case (1 i m rng acc)
  show ?case
  proof (cases "i \<le> m")
    case True
    then have u: "[i..m] = i # [i + 1..m]" by (simp add: upto_rec1)
    show ?thesis
    proof (cases "i = m")
      case True
      then show ?thesis using 1 u by (subst window_loop.simps) simp
    next
      case False
      then have "[i + 1..m] \<noteq> []" using \<open>i \<le> m\<close> by simp
      then show ?thesis using 1 u False \<open>i \<le> m\<close>
        by (subst window_loop.simps) (simp add: join_Cons)
    qed
  next
    case False
    then show ?thesis by (subst window_loop.simps) simp
  qed
qed

section \<open>Properties\<close>

text \<open>C40: Window displays: the display loop of both programs equals the reference that joins
  the shown numbers with \<^verbatim>\<open>", "\<close>.  The sender shows its window from the front for
  a window's length (nothing when no packet is in flight); the receiver shows the numbers
  from \<^verbatim>\<open>curPktNum + 1\<close>, one past the packet it still expects.\<close>

theorem windows_displayed:
  "showSlidingWindow s =
     (if slidingWindowEnd s < slidingWindowFront s then None
      else Some (bytes_of ''Current window = ['' @
        join (bytes_of '', '') (map (\<lambda>k. to_string (shown (seqRange s) k))
          [int (slidingWindowFront s)..int (slidingWindowFront s) + int (slidingWindowSize s) - 1])
        @ bytes_of '']'')) \<and>
   showSlidingWindow_r r =
     bytes_of ''Current window = ['' @
       join (bytes_of '', '') (map (\<lambda>k. to_string (shown (seqNumRange_r r) k))
         [curPktNum r + 1..curPktNum r + slidingWindowSize_r r])
       @ bytes_of '']''"
  by (simp add: showSlidingWindow_def showSlidingWindow_r_def window_loop_join Let_def)

end
