(* ===== verification/Spec2Isabelle.thy ===== *)
theory Spec2Isabelle
  imports Protocol Display
begin

text \<open>
  \<^bold>\<open>A verification development for the sliding-window file transfer of
  \<^verbatim>\<open>src/\<close>.\<close>

  \<^bold>\<open>The program.\<close>  A sender (\<^verbatim>\<open>src/sender.cpp\<close>) reads a file in fixed-size
  chunks and sends each as a packet over one TCP connection (\<^verbatim>\<open>src/NetSockets.cpp\<close>)
  to a receiver (\<^verbatim>\<open>src/receiver.cpp\<close>), which replies with an ACK or a NACK per packet,
  buffers packets that arrive out of order and writes the file in order.  Packets are
  encoded as a 50-character text header of binary digits followed by the raw payload
  (\<^verbatim>\<open>src/Packet.cpp\<close>); sequence number 0 is a handshake carrying the file's
  parameters.  The sender keeps a window of in-flight packets, retransmits on timeouts and
  NACKs, and runs a second thread that reads the replies; both threads work under one
  mutex.  A fault injector (in \<^verbatim>\<open>sender.cpp\<close>) drops packets, forces NACKs and loses
  ACKs, from operator-given lists or at random.

  \<^bold>\<open>Theories.\<close>
  \<^item> \<open>Prelude\<close>: bytes as \<open>8 word\<close>, wire strings as byte lists, C++ exceptions as the
    values of \<open>cpp_error\<close> in a sum type with \<open>res_bind\<close> to sequence them, and the list,
    sorting and word lemmas the components share (collections \<open>codec_simps\<close>,
    \<open>window_simps\<close>, \<open>buffer_simps\<close>).
  \<^item> \<open>CLib\<close>: the library routines the code calls on text (\<^verbatim>\<open>isspace\<close>,
    \<^verbatim>\<open>std::stoi\<close>, \<^verbatim>\<open>std::to_string\<close>, the zero-padding idiom, \<^verbatim>\<open>string(v.data())\<close>),
    written from their documented behaviour, and the decimal round trip.
  \<^item> \<open>Packet\<close>: the \<^verbatim>\<open>Packet\<close> class as a record; \<open>createChecksum\<close> at the source's
    widths (bytes sign-extended to 16 bits, a 64-bit accumulator whose carry is folded
    back, the complement of the low 16 bits); \<open>createPacketString\<close> and \<open>reversePacket\<close>
    with each \<^verbatim>\<open>substr\<close>, \<^verbatim>\<open>bitset\<close> conversion and the unchecked
    \<^verbatim>\<open>begin() + 50\<close> as error branches; deadlines on an explicit clock.
  \<^item> \<open>Faults\<close>: the error mode, the head-of-queue test of the three fault queues and the
    operator-list parser of \<^verbatim>\<open>promptForUserErrors\<close>.
  \<^item> \<open>Sender\<close>: the globals of \<^verbatim>\<open>sender.cpp\<close> as a record; \<open>processChunkData\<close>; one
    locked pass of \<^verbatim>\<open>checkPacketQueue\<close> (\<open>check_pass\<close>, \<open>scan_packets\<close>) and its busy
    loop (\<open>checkPacketQueue\<close>, with the clock readings of the successive passes as fuel:
    it returns \<open>None\<close> when the readings run out before the exit test holds); the body of
    \<^verbatim>\<open>readACKMessages\<close> for one decoded reply (\<open>readACK\<close>); and \<open>sender_reach\<close>, the
    states reachable when \<^verbatim>\<open>main\<close>'s chunk loop and the ACK thread interleave at the
    mutex, the random coins and decoded replies being arbitrary.
  \<^item> \<open>Receiver\<close>: the globals and counters of \<^verbatim>\<open>receiver.cpp\<close> as a record;
    \<open>readInitialPacket\<close>; \<open>processPacketBuffer\<close>; \<open>sendAckMessage\<close>; the body of the
    socket loop (\<open>receiver_step\<close>, split into \<open>receivePacket\<close> and \<open>deliverPacket\<close>) and
    the loop over the strings \<^verbatim>\<open>getFromSocket\<close> returns (\<open>receiver_loop\<close>).  An abstract
    receiver (\<open>rx_spec_step\<close>, \<open>first_gap\<close>) keeps the set of accepted numbers and
    outputs the chunks up to its first gap.
  \<^item> \<open>NetSockets\<close>: the \<^verbatim>\<open>NetSocket\<close> class; \<open>sendData\<close> as the bytes it puts on the
    stream (the string and a NUL); \<open>getFromSocket\<close>'s read loop over a byte stream, the
    kernel's segmentation being an oracle list of \<open>recv_event\<close>s (a \<^verbatim>\<open>recv\<close> delivers at
    least one and at most the requested number of available bytes, or fails).
  \<^item> \<open>Session\<close>: the rest of the sender's \<^verbatim>\<open>main\<close>: \<^verbatim>\<open>sendInitialFilePacket\<close>
    (\<open>initialPayload\<close>, the frame, and \<open>await_ack\<close>, the wait over the strings
    \<^verbatim>\<open>getFromSocket(0)\<close> returns); \<^verbatim>\<open>calculateDynamicTimeout\<close> (\<open>rtt_rounds\<close>,
    \<open>add_round\<close>) on clock readings given as input, at the source's \<^verbatim>\<open>int\<close> and
    \<^verbatim>\<open>long long\<close> widths; the option checks (\<open>main_options\<close>), the file size as
    \<^verbatim>\<open>int fileSize = inFile.tellg()\<close> stores it (the length modulo \<open>2^32\<close>, read as
    signed, by \<open>to_int32\<close>), the packet count in \<^verbatim>\<open>int\<close> arithmetic
    (\<open>packet_count\<close>, overflow an error) and the chunk loop (\<open>chunk_loop\<close>, a \<open>partial_function (option)\<close>
    whose per-chunk work, \<^verbatim>\<open>processChunkData\<close> then \<^verbatim>\<open>checkPacketQueue\<close>, is a
    parameter), with \<open>send_file\<close> composing them.  References: \<open>file_chunks\<close> (cutting a
    file into pieces) and \<open>spec_timeout\<close> (the spec's timeout formula).
  \<^item> \<open>Protocol\<close>: the composition of sender and receiver: the predicate \<open>carries\<close> (a
    packet holds the chunk its number names), its invariance over \<open>sender_reach\<close>, and
    the receiver loop's invariant on any sequence of the sender's frames.
  \<^item> \<open>Display\<close>: the window displays \<^verbatim>\<open>showSlidingWindow\<close> of both programs, the text
    they print built by the loop \<open>window_loop\<close> (terminating by the distance to its bound),
    against the reference \<open>join\<close>.  The receiver's argument check of \<^verbatim>\<open>main\<close> is
    \<open>receiver_port\<close> in \<open>Receiver\<close>.

  \<^bold>\<open>What is shown.\<close>
  \<^item> Codec: the checksum loop equals a closed-form one's-complement sum; every frame is a
    50-digit binary header and the payload; header and checksum round trips; a single changed byte is detected except the swap 0x00/0xFF,
    which is never detected when the other bytes do not sum to zero; a forced NACK is
    accepted as valid for payloads whose true checksum is 0; the decoder accepts exactly
    the inputs with a 50-digit binary header.
  \<^item> Sender: the window invariant over every reachable interleaving (the in-flight list is
    exactly \<open>front .. end\<close>, at most a window is outstanding, and a chunk is only sent when
    there is room); the exact effect of one pass (contiguous acknowledged prefix erased,
    every timed-out packet retransmitted once and counted once); the effect of a reply
    (lost ACK, ACK_OK, other codes); forced NACKs; draining terminates.
  \<^item> Receiver: the reorder-buffer invariant is kept by every string the loop handles and
    is established by the handshake; the receiver refines the abstract receiver;
    \<open>deliverPacket\<close> with its fast path equals the reference step that always appends and
    sorts (\<open>deliverPacket_sorted\<close>); the frames of the missing packets, arriving once each
    in any order, end the loop with the whole file written (the spec's 1, 3, 2, 4 example
    is its witness); duplicates and checksum failures; a NACKed handshake ends the session
    without output.
  \<^item> Transport: a frame of the expected size is read back whole for every segmentation;
    a shorter frame desynchronises the stream; a one-byte read looks like a close; a
    failed \<^verbatim>\<open>recv\<close> throws.
  \<^item> Session: the handshake round trip with \<^verbatim>\<open>readInitialPacket\<close>; the wait accepts any
    reply, a NACK included, and returns only when a non-empty string arrives; the dynamic
    timeout equals the spec's formula while the total stays below \<open>2^31\<close> (the spec's
    40 ms example is its witness), and is 1 ms whenever the total reaches
    \<open>[2^31, 2^32)\<close> in the last round; when the file's length modulo \<open>2^32\<close> is some
    \<open>k\<close> in \<open>(0, 2^31 - 1)\<close>, the chunk loop hands the engine the reference chunks of the
    first \<open>k\<close> bytes (the whole file below \<open>2^31 - 1\<close> bytes, a silent truncation above
    \<open>2^32\<close>); a length whose residue is at least \<open>2^31\<close> is refused as unreadable; the loop
    returns whenever each chunk's work returns, and fails on an empty file.
  \<^item> Whole transfer (this theory): on the sender's frames, in any order, with repeats and
    losses, the receiver writes a prefix of the file, and the whole file when it stops;
    started fresh and sent the handshake frame with \<^verbatim>\<open>main\<close>'s packet count before such
    frames, it stops only with exactly the file written.
  \<^item> Displays: both window displays equal the joined list of shown numbers; the receiver's
    starts one past the packet it expects.
  \<^item> Faults: the queue test fires exactly on its targets when numbers increase; an operator
    list with two consecutive blanks disables the whole queue.

  \<^bold>\<open>Bounds and fuel.\<close>  Sequence numbers are \<open>nat\<close>, read back modulo \<open>2^32\<close> by the decoder
  (the round trips assume numbers below \<open>2^32\<close>); \<^verbatim>\<open>int\<close> counters are \<open>int\<close> and only
  incremented up to the packet count, which \<^verbatim>\<open>stoi\<close> bounds by \<open>2^31\<close>.  The busy loop of
  \<^verbatim>\<open>checkPacketQueue\<close> gets one clock reading per pass; one reading suffices when every
  in-flight packet is acknowledged.  \<open>first_gap\<close> searches \<open>card D\<close> steps, enough for any
  finite set.  The read loop of \<^verbatim>\<open>getFromSocket\<close> terminates by the measure
  \<open>buff - hasRead\<close>.  The handshake and the echo waits take the strings the socket returns;
  running out of them is \<open>None\<close> (still waiting), which is the only way those loops fail to
  return (\<open>await_ack_returns\<close>).  The chunk loop is a \<open>partial_function (option)\<close>; it
  returns for every positive packet size (\<open>send_file_returns\<close>).  File lengths are
  unbounded \<open>nat\<close>s narrowed as \<^verbatim>\<open>tellg()\<close>'s assignment to \<^verbatim>\<open>int\<close> narrows them; the
  packet count is computed at \<^verbatim>\<open>int\<close> width, and an overflow there is undefined
  behaviour, an error of the model.  The sender's window counters are \<open>nat\<close>s, where the
  source's are \<^verbatim>\<open>int\<close>s: they only grow from 0 and stay below the packet count.  The round-trip theorems
  take the handshake's numbers in \<open>[0, 2^31)\<close>, the range of \<^verbatim>\<open>stoi\<close>, and the whole-transfer
  theorem fewer than \<open>2^32\<close> chunks, the range of the 32-bit sequence field.

  \<^bold>\<open>Not modelled.\<close>  Console prompts and the log lines printed with \<^verbatim>\<open>cout\<close> and
  \<^verbatim>\<open>printf\<close> (other than the window displays), file opening and the throughput statistics are I/O
  with no effect on the protocol state.  The probability of the random faults is not
  modelled; their outcomes are arbitrary inputs.  \<^verbatim>\<open>src/socket-client-test.cpp\<close> is a
  manual test program.  \<^verbatim>\<open>src/archive/\<close> and the copy of an older sender appended to
  \<^verbatim>\<open>src/receiver.cpp\<close> after line 322 are superseded versions of the current sources.
  Opening the file, connecting the socket and the prompts of \<^verbatim>\<open>main\<close> are I/O: the file
  is given as a byte list (\<open>None\<close> when it cannot be opened), the answers as arguments.
  The receiver's port parsing (\<^verbatim>\<open>istringstream\<close> of \<^verbatim>\<open>argv[1]\<close>) only chooses the port.
\<close>

section \<open>Properties of the whole transfer\<close>

text \<open>C2: End-to-end safety: in every state the sender reaches (the chunk loop of main,
  the passes of checkPacketQueue and the ACK worker interleaved in any order), on the
  chunks main cuts the file into, the receiver, started in its post-handshake invariant
  and fed any of the frames the sender has put on the stream, in any order, with
  repetitions and losses, has written a prefix of the file; when it stops, with the
  packet count the sender announces, it has written the whole file.\<close>

theorem transfer_safety:
  assumes "0 < pktSize" and "sender_reach (file_chunks (nat pktSize) bs) pc s"
    and "length (file_chunks (nat pktSize) bs) < 2 ^ 32"
    and "rcv_inv (file_chunk (file_chunks (nat pktSize) bs)) r" and "set frames \<subseteq> set (sent s)"
    and "receiver_loop frames r = Inr (r', stop)"
  shows "prefix (senderFile r') bs \<and>
         (stop \<and> numPackets r = int (length (file_chunks (nat pktSize) bs)) + 1 \<longrightarrow> senderFile r' = bs)"
  using transfer_prefix[OF assms(2-6)] concat_file_chunks[of "nat pktSize" bs] assms(1) by simp

lemma transfer_safety_witness:
  "\<exists>r' stop. receiver_loop (sent (processChunkData 0 False False [65] (init_sender 100 1 0 Errors_None [] [] [])))
        (init_receiver\<lparr>curPktNum := 1, donePackets := {0}, numPackets := 2, packetSize := 1, fileSize := 1\<rparr>) =
      Inr (r', stop) \<and> prefix (senderFile r') [65] \<and> (stop \<longrightarrow> senderFile r' = [65])"
proof -
  let ?c = "file_chunks (nat 1) [65]"
  have c: "?c = [[65]]" "file_chunks (Suc 0) [65] = [[65]]" by (simp_all add: file_chunks.simps)
  let ?s = "processChunkData 0 False False [65] (init_sender 100 1 0 Errors_None [] [] [])"
  let ?r = "init_receiver\<lparr>curPktNum := 1, donePackets := {0}, numPackets := 2, packetSize := 1, fileSize := 1\<rparr>"
  let ?init = "init_sender 100 1 0 Errors_None [] [] []"
  have "sender_reach ?c Checking (processChunkData 0 False False (?c ! curSeqNum ?init) ?init)"
    by (rule sender_reach.chunk, rule sender_reach.start) (simp add: c init_sender_def)
  then have snd: "sender_reach ?c Checking ?s" by (simp add: c init_sender_def)
  have inv: "rcv_inv (file_chunk ?c) ?r" by (simp add: c rcv_inv_def init_receiver_def)
  have "\<exists>r' stop. receiver_loop (sent ?s) ?r = Inr (r', stop)"
    by (simp add: processChunkData_def init_sender_def consult_queue_def setTimeout_def
        receiver_step_frame receivePacket_new_data init_receiver_def sendAckMessage_def
        new_packet_def isValidChecksum_def deliverPacket_def processPacketBuffer_def Let_def smod_int_alt_def ex_bool_eq)
  then obtain r' stop where run: "receiver_loop (sent ?s) ?r = Inr (r', stop)" by blast
  have "prefix (senderFile r') [65] \<and> (stop \<and> numPackets ?r = int (length ?c) + 1 \<longrightarrow> senderFile r' = [65])"
    using transfer_safety[of 1 "[65]" Checking ?s ?r "sent ?s" r' stop] snd inv run by (simp add: c)
  then show ?thesis using run by (simp add: c init_receiver_def)
qed

text \<open>C3: Complete transfer: for a non-empty file shorter than \<open>2^31 - 1\<close> bytes, a
  packet size in \<open>(0, 2^31)\<close> and handshake options in range, when the fresh receiver
  is sent the handshake frame of \<^verbatim>\<open>sendInitialFilePacket\<close> with the packet count of
  \<^verbatim>\<open>main\<close>, followed by any of the frames of a reachable sender state, in any order,
  with repeats and losses, and its loop stops, it has written exactly the file.\<close>

theorem transfer_complete:
  assumes ps: "0 < pktSize" "pktSize < 2 ^ 31" and bs: "bs \<noteq> []" "int (length bs) < 2 ^ 31 - 1"
    and hs: "0 \<le> ws \<and> ws < 2 ^ 31" "0 \<le> sr \<and> sr < 2 ^ 31" "proto = GBN \<or> proto = SR" "0 \<notin> set name"
    and snd: "sender_reach (file_chunks (nat pktSize) bs) pc s" and fr: "set frames \<subseteq> set (sent s)"
    and pc: "packet_count (int (length bs)) pktSize = Inr (np, fin)"
    and d: "initialPayload name (int (length bs)) np pktSize ws proto sr = Inr d"
    and run: "receiver_loop (createPacketString False (initialPacket d) # frames) init_receiver = Inr (r', True)"
  shows "senderFile r' = bs"
proof -
  let ?n = "nat pktSize" and ?c = "file_chunks (nat pktSize) bs"
  have n: "0 < ?n" "int ?n = pktSize" using ps by simp_all
  have np: "np = 1 + int (length ?c)"
    using pc packet_count_file[OF n(1), of bs] bs(2) n(2) by simp
  have lc: "length ?c \<le> length bs" using length_file_chunks_le[OF n(1)] .
  then have np_rng: "0 \<le> np \<and> np < 2 ^ 31" using np bs(2) by simp
  obtain d' r1 where h: "initialPayload name (int (length bs)) np pktSize ws proto sr = Inr d'"
      "receiver_step (createPacketString False (initialPacket d')) init_receiver = Inr (r1, False)"
      "numPackets r1 = np" "curPktNum r1 = 1" "packetBuffer r1 = []" "donePackets r1 = {0}"
      "senderFile r1 = []"
    using handshake_frame[of "int (length bs)" np pktSize ws sr proto name] bs(2) np_rng ps hs
    by auto
  have "d' = d" using h(1) d by simp
  then have loop: "receiver_loop frames r1 = Inr (r', True)" using run h(2) by simp
  have inv: "rcv_inv (file_chunk ?c) r1" using h(4-7) by (rule rcv_inv_after_handshake)
  have "length ?c < 2 ^ 32" using lc bs(2) by simp
  then show ?thesis
    using transfer_prefix[OF snd _ inv fr loop] h(3) np concat_file_chunks[OF n(1), of bs] by simp
qed

lemma transfer_complete_witness:
  "\<exists>d r'. initialPayload [111] 1 2 1 1 SR 0 = Inr d \<and>
     receiver_loop (createPacketString False (initialPacket d) #
       sent (processChunkData 0 False False [65] (init_sender 100 1 0 Errors_None [] [] [])))
       init_receiver = Inr (r', True) \<and> senderFile r' = [65]"
proof -
  let ?init = "init_sender 100 1 0 Errors_None [] [] []"
  let ?s = "processChunkData 0 False False [65] ?init"
  have c: "file_chunks (nat 1) [65] = [[65]]" "file_chunks (Suc 0) [65] = [[65]]"
    by (simp_all add: file_chunks.simps)
  have "sender_reach [[65]] Checking (processChunkData 0 False False ([[65]] ! curSeqNum ?init) ?init)"
    by (rule sender_reach.chunk, rule sender_reach.start) (simp add: init_sender_def)
  then have snd: "sender_reach (file_chunks (nat 1) [65]) Checking ?s" by (simp add: c init_sender_def)
  have pc: "packet_count (int (length [65 :: byte])) 1 = Inr (2, 0)"
    by (simp add: packet_count_def signed_divide_int_def signed_modulo_int_def in_signed_range_def)
  obtain d r1 where h: "initialPayload [111] 1 2 1 1 SR 0 = Inr d"
      "receiver_step (createPacketString False (initialPacket d)) init_receiver = Inr (r1, False)"
      "numPackets r1 = 2" "curPktNum r1 = 1" "packetBuffer r1 = []" "donePackets r1 = {0}"
      "senderFile r1 = []"
    using handshake_frame[of 1 2 1 1 0 SR "[111]"] by (auto simp: SR_def GBN_def)
  have "\<exists>r'. receiver_loop (sent ?s) r1 = Inr (r', True)"
    by (simp add: h processChunkData_def init_sender_def consult_queue_def setTimeout_def
        receiver_step_frame receivePacket_new_data sendAckMessage_def new_packet_def
        isValidChecksum_def deliverPacket_def processPacketBuffer_def Let_def)
  then obtain r' where run: "receiver_loop (createPacketString False (initialPacket d) # sent ?s)
      init_receiver = Inr (r', True)" using h(2) by auto
  have "senderFile r' = [65]"
    using transfer_complete[of 1 "[65]" 1 0 SR "[111]" Checking ?s "sent ?s" 2 0 d r'] snd pc h(1) run
    by (simp add: SR_def GBN_def)
  then show ?thesis using h(1) run by blast
qed

end
